theory Spec2Isabelle
  imports
    Main
    "HOL-Library.Sublist"
    "HOL-Library.Signed_Division"
    "HOL-Library.Char_ord"
    "HOL-Library.List_Lexorder"
    "HOL-Library.Multiset"
begin

section \<open>Data model of repotest.go\<close>

text \<open>
  Go strings are byte sequences: \<open>string\<close> (a list of 8-bit characters), \<open>len\<close> is
  \<open>length\<close>, and \<open><\<close> on strings is the bytewise lexicographic order (the order of
  \<open>HOL-Library.List_Lexorder\<close> over \<open>HOL-Library.Char_ord\<close>). Go's \<open>int\<close> is \<open>int\<close>: no
  arithmetic of the program comes near the 64-bit bounds. A nil slice and an empty slice
  are both \<open>[]\<close>; the program never tells them apart (it tests \<open>len(x) == 0\<close> beside
  \<open>x == nil\<close>).
\<close>

type_synonym error = string

datatype panic = Panic string

text \<open>
  \<open>testjson.Execution\<close> belongs to the external analyzer (gotestsum). The program reads it
  only through \<open>Total()\<close>, \<open>Errors()\<close>, \<open>Failed()\<close> and \<open>Elapsed()\<close>, so it is a record of
  what these four return (failed test cases by name, the elapsed time in nanoseconds).
\<close>

record execution =
  Total :: int
  Errors :: "string list"
  Failed :: "string list"
  Elapsed :: int

record testAnalysis =
  testExec :: execution
  label :: string

text \<open>
  Standard output is the list of the print calls made, in order. A \<open>Printf\<close> is its format
  and its arguments; \<open>ASeconds d p\<close> is the string
  \<open>testjson.FormatDurationAsSeconds(d, p)\<close>, and \<open>PrintSummary e\<close> is the call
  \<open>testjson.PrintSummary(os.Stdout, e, testjson.SummarizeAll)\<close>.
\<close>

datatype arg = AStr string | AInt int | ASeconds int int

datatype printed = Printf string "arg list" | Println "string list" | PrintSummary execution

subsection \<open>Constants\<close>

definition colorRed :: string where
  "colorRed = CHR 0x1B # ''[31m''"

definition colorGreen :: string where
  "colorGreen = CHR 0x1B # ''[32m''"

definition colorYellow :: string where
  "colorYellow = CHR 0x1B # ''[33m''"

definition colorBlue :: string where
  "colorBlue = CHR 0x1B # ''[34m''"

definition colorReset :: string where
  "colorReset = CHR 0x1B # ''[0m''"

text \<open>The three glyphs are U+2713, U+2716 and U+2205, in UTF-8.\<close>

definition iconSuccess :: string where
  "iconSuccess = colorGreen @ [CHR 0xE2, CHR 0x9C, CHR 0x93] @ colorReset"

definition iconFailure :: string where
  "iconFailure = colorRed @ [CHR 0xE2, CHR 0x9C, CHR 0x96] @ colorReset"

definition iconSkipped :: string where
  "iconSkipped = colorYellow @ [CHR 0xE2, CHR 0x88, CHR 0x85] @ colorReset"

section \<open>The Go standard library, as far as the program calls it\<close>

text \<open>
  The functions of \<open>strings\<close> and \<open>path/filepath\<close> below follow the standard library's
  implementation on a Unix platform: \<open>filepath.Separator\<close> is \<open>/\<close>, there are no volume
  names, and \<open>sameWord\<close> is equality.
\<close>

subsection \<open>strings\<close>

definition Contains :: "string \<Rightarrow> string \<Rightarrow> bool" where
  "Contains s substr = sublist substr s"

definition HasPrefix :: "string \<Rightarrow> string \<Rightarrow> bool" where
  "HasPrefix s pre = prefix pre s"

text \<open>
  \<open>strings.TrimSpace\<close> cuts the leading and the trailing white space, as
  \<open>unicode.IsSpace\<close> defines it: tab, line feed, vertical tab, form feed, carriage
  return, space, U+0085, U+00A0, U+1680, U+2000 to U+200A, U+2028, U+2029, U+202F, U+205F
  and U+3000. On a byte string these are the UTF-8 encodings below.
\<close>

definition spaceEncodings :: "string list" where
  "spaceEncodings =
     [[CHR 0x09], [CHR 0x0A], [CHR 0x0B], [CHR 0x0C], [CHR 0x0D], [CHR 0x20],
      [CHR 0xC2, CHR 0x85], [CHR 0xC2, CHR 0xA0], [CHR 0xE1, CHR 0x9A, CHR 0x80],
      [CHR 0xE2, CHR 0x80, CHR 0x80], [CHR 0xE2, CHR 0x80, CHR 0x81],
      [CHR 0xE2, CHR 0x80, CHR 0x82], [CHR 0xE2, CHR 0x80, CHR 0x83],
      [CHR 0xE2, CHR 0x80, CHR 0x84], [CHR 0xE2, CHR 0x80, CHR 0x85],
      [CHR 0xE2, CHR 0x80, CHR 0x86], [CHR 0xE2, CHR 0x80, CHR 0x87],
      [CHR 0xE2, CHR 0x80, CHR 0x88], [CHR 0xE2, CHR 0x80, CHR 0x89],
      [CHR 0xE2, CHR 0x80, CHR 0x8A], [CHR 0xE2, CHR 0x80, CHR 0xA8],
      [CHR 0xE2, CHR 0x80, CHR 0xA9], [CHR 0xE2, CHR 0x80, CHR 0xAF],
      [CHR 0xE2, CHR 0x81, CHR 0x9F], [CHR 0xE3, CHR 0x80, CHR 0x80]]"

text \<open>
  \<open>trimPrefixes encs s\<close> cuts from the front of \<open>s\<close> as long as one of \<open>encs\<close> stands there.
  Cutting at the end is the same on the reversed string, with the encodings reversed.
\<close>

fun trimPrefixes :: "string list \<Rightarrow> string \<Rightarrow> string" where
  "trimPrefixes encs [] = []"
| "trimPrefixes encs (c # cs) =
     (case find (\<lambda>e. e \<noteq> [] \<and> prefix e (c # cs)) encs of
        Some e \<Rightarrow> trimPrefixes encs (drop (length e - 1) cs)
      | None \<Rightarrow> c # cs)"

definition trimLeft :: "string \<Rightarrow> string" where
  "trimLeft s = trimPrefixes spaceEncodings s"

definition trimRight :: "string \<Rightarrow> string" where
  "trimRight s = rev (trimPrefixes (map rev spaceEncodings) (rev s))"

definition TrimSpace :: "string \<Rightarrow> string" where
  "TrimSpace s = trimRight (trimLeft s)"

subsection \<open>path/filepath\<close>

text \<open>
  \<open>filepath.Clean\<close> reads the path from left to right and writes the cleaned path into a
  buffer \<open>out\<close>; \<open>dotdot\<close> is the index in \<open>out\<close> a \<open>..\<close> element must not back up over.
  \<open>backtrackTo out dotdot w\<close> is the inner loop of the \<open>..\<close> case
  (\<open>for out.w > dotdot && !IsPathSeparator(out.index(out.w)) { out.w-- }\<close>), and
  \<open>cleanLoop rooted out dotdot rest\<close> is the main loop with \<open>rest\<close> the unread part
  \<open>path[r:]\<close>.
\<close>

fun backtrackTo :: "string \<Rightarrow> nat \<Rightarrow> nat \<Rightarrow> nat" where
  "backtrackTo out dotdot w =
     (if w > dotdot \<and> out ! w \<noteq> CHR ''/'' then backtrackTo out dotdot (w - 1) else w)"

declare backtrackTo.simps [simp del]

function cleanLoop :: "bool \<Rightarrow> string \<Rightarrow> nat \<Rightarrow> string \<Rightarrow> string" where
  "cleanLoop rooted out dotdot [] = out"
| "cleanLoop rooted out dotdot (c # cs) =
     (if c = CHR ''/'' then cleanLoop rooted out dotdot cs
      else if c = CHR ''.'' \<and> (cs = [] \<or> hd cs = CHR ''/'') then cleanLoop rooted out dotdot cs
      else if c = CHR ''.'' \<and> cs \<noteq> [] \<and> hd cs = CHR ''.''
              \<and> (tl cs = [] \<or> hd (tl cs) = CHR ''/'')
      then (if length out > dotdot
            then cleanLoop rooted (take (backtrackTo out dotdot (length out - 1)) out) dotdot
                   (tl cs)
            else if \<not> rooted
            then cleanLoop rooted ((if length out > 0 then out @ ''/'' else out) @ ''..'')
                   (length ((if length out > 0 then out @ ''/'' else out) @ ''..'')) (tl cs)
            else cleanLoop rooted out dotdot (tl cs))
      else cleanLoop rooted
             ((if rooted \<and> length out \<noteq> 1 \<or> \<not> rooted \<and> length out \<noteq> 0
               then out @ ''/'' else out)
              @ takeWhile (\<lambda>x. x \<noteq> CHR ''/'') (c # cs))
             dotdot (dropWhile (\<lambda>x. x \<noteq> CHR ''/'') (c # cs)))"
  by pat_completeness auto
termination
proof (relation "measure (\<lambda>(rooted, out, dotdot, rest). length rest)")
  show "wf (measure (\<lambda>(rooted, out, dotdot, rest). length rest))" by simp
next
  fix rooted :: bool and out :: string and dotdot :: nat and c :: char and cs :: string
  assume "c \<noteq> CHR ''/''"
  then have "length (dropWhile (\<lambda>x. x \<noteq> CHR ''/'') (c # cs)) \<le> length cs"
    by (simp add: length_dropWhile_le)
  then show "((rooted,
               (if rooted \<and> length out \<noteq> 1 \<or> \<not> rooted \<and> length out \<noteq> 0
                then out @ ''/'' else out) @ takeWhile (\<lambda>x. x \<noteq> CHR ''/'') (c # cs),
               dotdot, dropWhile (\<lambda>x. x \<noteq> CHR ''/'') (c # cs)),
              (rooted, out, dotdot, c # cs))
             \<in> measure (\<lambda>(rooted, out, dotdot, rest). length rest)"
    by simp
qed (simp_all add: less_Suc_eq_le)

definition Clean :: "string \<Rightarrow> string" where
  "Clean path =
     (if path = [] then ''.''
      else (let rooted = (hd path = CHR ''/'');
                out = (if rooted then cleanLoop True ''/'' 1 (tl path)
                       else cleanLoop False [] 0 path)
            in if out = [] then ''.'' else out))"

text \<open>
  Two notions for the proofs about \<open>cleanLoop\<close>: whether the unread part ends in a
  separator, and whether \<open>out\<close> holds nothing but the leading separator of a rooted path
  (the test that decides if \<open>cleanLoop\<close> writes a separator before an element).
\<close>

definition trailingSep :: "string \<Rightarrow> nat" where
  "trailingSep rest = (if rest \<noteq> [] \<and> last rest = CHR ''/'' then 1 else 0)"

definition atBase :: "bool \<Rightarrow> string \<Rightarrow> bool" where
  "atBase rooted out = (\<not> (rooted \<and> length out \<noteq> 1 \<or> \<not> rooted \<and> length out \<noteq> 0))"

text \<open>
  And two for the shape of what \<open>cleanLoop\<close> writes: a path that does not end in a
  separator, unless it is the root \<open>/\<close> itself; and the invariant of the loop, that this
  holds of \<open>out\<close>, of \<open>out\<close> up to \<open>dotdot\<close> and of \<open>out\<close> up to each separator in it.
\<close>

definition noTrailingSep :: "bool \<Rightarrow> string \<Rightarrow> bool" where
  "noTrailingSep rooted p = (p = [] \<or> rooted \<and> p = ''/'' \<or> last p \<noteq> CHR ''/'')"

definition cleanInv :: "bool \<Rightarrow> string \<Rightarrow> nat \<Rightarrow> bool" where
  "cleanInv rooted out dotdot =
     (dotdot \<le> length out \<and> noTrailingSep rooted (take dotdot out) \<and> noTrailingSep rooted out
      \<and> (\<forall>k < length out. out ! k = CHR ''/'' \<longrightarrow> noTrailingSep rooted (take k out)))"

text \<open>\<open>strings.Join(elems, sep)\<close>.\<close>

fun stringsJoin :: "string list \<Rightarrow> string \<Rightarrow> string" where
  "stringsJoin [] sep = []"
| "stringsJoin [e] sep = e"
| "stringsJoin (e # elems) sep = e @ sep @ stringsJoin elems sep"

text \<open>\<open>filepath.Join\<close> skips the leading empty elements and cleans the rest joined by \<open>/\<close>.\<close>

fun Join :: "string list \<Rightarrow> string" where
  "Join [] = []"
| "Join (e # elem) = (if e \<noteq> [] then Clean (stringsJoin (e # elem) ''/'') else Join elem)"

text \<open>
  \<open>filepath.Dir\<close> cleans the prefix of the path that ends at its last separator (the
  empty prefix when it has none).
\<close>

definition Dir :: "string \<Rightarrow> string" where
  "Dir path = Clean (rev (dropWhile (\<lambda>x. x \<noteq> CHR ''/'') (rev path)))"

text \<open>
  \<open>filepath.Rel\<close>. Its loop walks \<open>base\<close> and \<open>targ\<close> element by element while the elements
  agree. \<open>relLoop base targ\<close> takes the unread parts \<open>base[b0:]\<close> and \<open>targ[t0:]\<close> and
  returns \<open>(base[b0:], base[b0:bi], targ[t0:])\<close> as they stand when the loop ends: at the
  \<open>break\<close> \<open>base[b0:bi]\<close> is the element of \<open>base\<close> that differs, and it is empty when the
  loop ends by its condition.
\<close>

function relLoop :: "string \<Rightarrow> string \<Rightarrow> string \<times> string \<times> string" where
  "relLoop base targ =
     (if base = [] \<or> targ = [] then (base, [], targ)
      else if takeWhile (\<lambda>x. x \<noteq> CHR ''/'') targ \<noteq> takeWhile (\<lambda>x. x \<noteq> CHR ''/'') base
      then (base, takeWhile (\<lambda>x. x \<noteq> CHR ''/'') base, targ)
      else relLoop (drop 1 (dropWhile (\<lambda>x. x \<noteq> CHR ''/'') base))
             (drop 1 (dropWhile (\<lambda>x. x \<noteq> CHR ''/'') targ)))"
  by pat_completeness auto
termination
proof (relation "measure (\<lambda>(base, targ). length base)")
  show "wf (measure (\<lambda>(base, targ). length base))" by simp
next
  fix base targ :: string
  assume "\<not> (base = [] \<or> targ = [])"
  then obtain c cs where base: "base = c # cs" by (cases base) auto
  have "length (dropWhile (\<lambda>x. x \<noteq> CHR ''/'') (c # cs)) \<le> Suc (length cs)"
    using length_dropWhile_le [of "\<lambda>x. x \<noteq> CHR ''/''" "c # cs"] by simp
  then have "length (drop 1 (dropWhile (\<lambda>x. x \<noteq> CHR ''/'') (c # cs))) < Suc (length cs)"
    by (cases "dropWhile (\<lambda>x. x \<noteq> CHR ''/'') (c # cs)") simp_all
  then show "((drop 1 (dropWhile (\<lambda>x. x \<noteq> CHR ''/'') base),
               drop 1 (dropWhile (\<lambda>x. x \<noteq> CHR ''/'') targ)), (base, targ))
             \<in> measure (\<lambda>(base, targ). length base)"
    unfolding base by simp
qed

declare relLoop.simps [simp del]

definition relError :: "string \<Rightarrow> string \<Rightarrow> error" where
  "relError basepath targpath =
     ''Rel: can'' @ [CHR 0x27] @ ''t make '' @ targpath @ '' relative to '' @ basepath"

definition Rel :: "string \<Rightarrow> string \<Rightarrow> string \<times> error option" where
  "Rel basepath targpath =
     (let base = Clean basepath; targ = Clean targpath in
      if targ = base then (''.'', None)
      else (let base = (if base = ''.'' then [] else base);
                baseSlashed = (length base > 0 \<and> hd base = CHR ''/'');
                targSlashed = (length targ > 0 \<and> hd targ = CHR ''/'')
            in if baseSlashed \<noteq> targSlashed then ([], Some (relError basepath targpath))
               else (case relLoop base targ of
                       (b0, belem, t0) \<Rightarrow>
                         if belem = ''..'' then ([], Some (relError basepath targpath))
                         else if b0 \<noteq> []
                         then (''..''
                               @ concat (replicate (length (filter (\<lambda>x. x = CHR ''/'') b0)) ''/..'')
                               @ (if t0 \<noteq> [] then ''/'' @ t0 else []), None)
                         else (t0, None))))"

section \<open>The environment\<close>

text \<open>
  What the program gets from outside is a parameter of the model. \<open>Getwd\<close>, \<open>ReadDir\<close>
  (the names of the entries) and \<open>Open\<close> are the calls of package \<open>os\<close>; an opened file is
  the lines \<open>bufio.Scanner\<close> delivers, the error \<open>scanner.Err()\<close> reports after the last of
  them, and the error of \<open>Close\<close>. \<open>CommandOutput name args\<close> is
  \<open>exec.Command(name, args...).Output()\<close>, and \<open>ScanTestOutput\<close> is the analyzer's
  \<open>testjson.ScanTestOutput\<close> on the bytes of a subprocess's standard output.
\<close>

record osFile =
  Lines :: "string list"
  ScanErr :: "error option"
  CloseErr :: "error option"

record world =
  Getwd :: "error + string"
  ReadDir :: "string \<Rightarrow> error + string list"
  Open :: "string \<Rightarrow> error + osFile"
  CommandOutput :: "string \<Rightarrow> string list \<Rightarrow> string \<times> error option"
  ScanTestOutput :: "string \<Rightarrow> error + execution"

section \<open>Workspace discovery and descriptor parsing\<close>

text \<open>
  \<open>log.Println(err)\<close> is the only other effect of these functions: each returns, beside
  its results, the list of the errors it logged.
\<close>

subsection \<open>readWorkspaceFile\<close>

text \<open>The scanner loop, with \<open>beginCapture\<close> and \<open>packages\<close> as its state.\<close>

fun scanLoop :: "string \<Rightarrow> string list \<Rightarrow> bool \<Rightarrow> string list \<Rightarrow> string list" where
  "scanLoop path [] beginCapture packages = packages"
| "scanLoop path (line # rest) beginCapture packages =
     (if beginCapture \<and> \<not> Contains line '')''
      then scanLoop path rest beginCapture (packages @ [Join [path, TrimSpace line]])
      else if HasPrefix line ''use (''
      then scanLoop path rest True packages
      else scanLoop path rest beginCapture packages)"

text \<open>
  The deferred \<open>f.Close()\<close> runs when the function returns, so its error is logged after
  the scanner's.
\<close>

definition readWorkspaceFile :: "world \<Rightarrow> string \<Rightarrow> string \<Rightarrow> string list \<times> error list" where
  "readWorkspaceFile w path filename =
     (case Open w (Join [path, filename]) of
        Inl err \<Rightarrow> ([], [err])
      | Inr f \<Rightarrow>
          (let packages = scanLoop path (Lines f) False [];
               closeLog = (case CloseErr f of Some err \<Rightarrow> [err] | None \<Rightarrow> [])
           in case ScanErr f of
                Some err \<Rightarrow> ([], err # closeLog)
              | None \<Rightarrow> (packages, closeLog)))"

subsection \<open>getWorkspacePaths\<close>

definition workFile :: string where
  "workFile = ''go.work''"

text \<open>
  The loop \<open>for !done\<close>, from the directory \<open>path\<close>: it returns the root path, the member
  list and the log. Its termination is proved below, from the fact that \<open>filepath.Dir\<close>
  shortens every path it does not map to a path of length 1.
\<close>

function walkUp :: "world \<Rightarrow> string \<Rightarrow> string \<times> string list \<times> error list" where
  "walkUp w path =
     (case ReadDir w path of
        Inl err \<Rightarrow> ([], [], [err])
      | Inr entries \<Rightarrow>
          (case find (\<lambda>e. e = workFile) entries of
             Some e \<Rightarrow>
               (case readWorkspaceFile w path e of (packages, lg) \<Rightarrow> (path, packages, lg))
           | None \<Rightarrow>
               if length (Dir path) = 1 then ([], [], []) else walkUp w (Dir path)))"
  by pat_completeness auto

definition getWorkspacePaths :: "world \<Rightarrow> string \<times> string list \<times> error list" where
  "getWorkspacePaths w =
     (case Getwd w of
        Inl err \<Rightarrow> ([], [], [err])
      | Inr path \<Rightarrow> walkUp w path)"

section \<open>Test execution\<close>

definition execTest :: "world \<Rightarrow> string \<Rightarrow> bool \<Rightarrow> string" where
  "execTest w dirPath useCache =
     (let testDir = Join [dirPath, ''...'']
      in if useCache
         then fst (CommandOutput w ''go'' [''test'', ''-json'', testDir])
         else fst (CommandOutput w ''go'' [''test'', ''-count=1'', ''-json'', testDir]))"

definition removeRelativePath :: "string \<Rightarrow> string \<Rightarrow> string" where
  "removeRelativePath wPath path = fst (Rel wPath path)"

text \<open>\<open>log.Panic\<close> panics with the message it logs.\<close>

definition analyzeTest :: "world \<Rightarrow> string \<Rightarrow> string \<Rightarrow> string \<Rightarrow> panic + testAnalysis" where
  "analyzeTest w wPath path out =
     (case ScanTestOutput w out of
        Inl err \<Rightarrow> Inl (Panic (''failed to scan testjson: '' @ err))
      | Inr te \<Rightarrow> Inr \<lparr>testExec = te, label = removeRelativePath wPath path\<rparr>)"

text \<open>
  \<open>execAllTests\<close> starts one goroutine per path; each sends one record to the channel,
  whose buffer holds them all, and the function returns what the channel delivered once
  every goroutine is done and the channel is closed. The order in which the goroutines
  finish is not determined: \<open>workers w wPath useCache pending ch res\<close> says that, with the
  paths \<open>pending\<close> still at work and \<open>ch\<close> sent so far, the run can end in \<open>res\<close>. A panic
  in a goroutine ends the process. \<open>pick pending p rest\<close> chooses the goroutine that
  finishes next: its path \<open>p\<close>, and the paths \<open>rest\<close> that remain.
\<close>

inductive pick :: "'a list \<Rightarrow> 'a \<Rightarrow> 'a list \<Rightarrow> bool" where
  here: "pick (x # xs) x xs"
| later: "pick xs y ys \<Longrightarrow> pick (x # xs) y (x # ys)"

code_pred pick .

inductive workers ::
  "world \<Rightarrow> string \<Rightarrow> bool \<Rightarrow> string list \<Rightarrow> testAnalysis list
     \<Rightarrow> panic + testAnalysis list \<Rightarrow> bool"
  for w :: world and wPath :: string and useCache :: bool where
  closed: "workers w wPath useCache [] ch (Inr ch)"
| sent: "pick pending p rest \<Longrightarrow>
         analyzeTest w wPath p (execTest w p useCache) = Inr r \<Longrightarrow>
         workers w wPath useCache rest (ch @ [r]) res \<Longrightarrow>
         workers w wPath useCache pending ch res"
| panicked: "pick pending p rest \<Longrightarrow>
         analyzeTest w wPath p (execTest w p useCache) = Inl e \<Longrightarrow>
         workers w wPath useCache pending ch (Inl e)"

code_pred workers .

definition execAllTests ::
  "world \<Rightarrow> string \<Rightarrow> string list \<Rightarrow> bool \<Rightarrow> panic + testAnalysis list \<Rightarrow> bool" where
  "execAllTests w wPath paths useCache res =
     (if paths = [] then res = Inr [] else workers w wPath useCache paths [] res)"

section \<open>Result presentation\<close>

subsection \<open>getMaxLabel\<close>

text \<open>The loop of \<open>getMaxLabel\<close>, with \<open>maxLen\<close> as the accumulator.\<close>

fun maxLabelLoop :: "testAnalysis list \<Rightarrow> int \<Rightarrow> int" where
  "maxLabelLoop [] maxLen = maxLen"
| "maxLabelLoop (ta # results) maxLen =
     (if int (length (label ta)) > maxLen
      then maxLabelLoop results (int (length (label ta)))
      else maxLabelLoop results maxLen)"

definition getMaxLabel :: "testAnalysis list \<Rightarrow> int" where
  "getMaxLabel results = maxLabelLoop results 0 + 1"

subsection \<open>printSummary\<close>

definition printSummary :: "testAnalysis \<Rightarrow> int \<Rightarrow> printed" where
  "printSummary ta labelLen =
     (if Total (testExec ta) = 0
      then Printf (''%s %*s'' @ [CHR 0x0A]) [AStr iconSkipped, AInt labelLen, AStr (label ta)]
      else if int (length (Errors (testExec ta))) > 0 \<or> int (length (Failed (testExec ta))) > 0
      then Printf (''%s %*s  %3d tests (%s) (%d errors) (%d failed)'' @ [CHR 0x0A])
             [AStr iconFailure, AInt labelLen, AStr (label ta), AInt (Total (testExec ta)),
              ASeconds (Elapsed (testExec ta)) 3,
              AInt (int (length (Errors (testExec ta)))),
              AInt (int (length (Failed (testExec ta))))]
      else Printf (''%s %*s  %3d tests (%s)'' @ [CHR 0x0A])
             [AStr iconSuccess, AInt labelLen, AStr (label ta), AInt (Total (testExec ta)),
              ASeconds (Elapsed (testExec ta)) 3])"

subsection \<open>printFailedDetail\<close>

text \<open>
  \<open>strings.Repeat\<close> panics on a negative count and when the length of the result
  overflows \<open>int\<close> (64 bits); otherwise it is \<open>n\<close> copies of \<open>s\<close>, \<open>n\<close> being its parameter
  \<open>count\<close>.
\<close>

definition maxInt :: int where
  "maxInt = 2 ^ 63 - 1"

definition Repeat :: "string \<Rightarrow> int \<Rightarrow> panic + string" where
  "Repeat s n =
     (if n < 0 then Inl (Panic ''strings: negative Repeat count'')
      else if int (length s) * n > maxInt
      then Inl (Panic ''strings: Repeat output length overflow'')
      else Inr (concat (replicate (nat n) s)))"

text \<open>
  Go's \<open>/\<close> on \<open>int\<close> truncates toward zero: it is \<open>sdiv\<close>, not the flooring \<open>div\<close> of
  HOL (\<open>(-1) / 2\<close> is \<open>0\<close> in Go).
\<close>

definition printFailedDetail :: "testAnalysis \<Rightarrow> panic + printed list" where
  "printFailedDetail ta =
     (if int (length (Errors (testExec ta))) > 0 \<or> int (length (Failed (testExec ta))) > 0
      then (let cnt = (80 - int (length (label ta))) sdiv 2 in
            case Repeat ''='' cnt of
              Inl p \<Rightarrow> Inl p
            | Inr eq \<Rightarrow>
                Inr [Printf ([CHR 0x0A] @ ''%s%s  %s  %s%s'' @ [CHR 0x0A])
                       [AStr colorRed, AStr eq, AStr (label ta), AStr eq, AStr colorReset],
                     PrintSummary (testExec ta)])
      else Inr [])"

subsection \<open>printResults\<close>

text \<open>
  \<open>sort.Slice(results, less)\<close> with \<open>less\<close> comparing the labels. \<open>sort.Slice\<close> promises a
  sorted slice, not the order of records with equal labels; the model is the insertion sort
  it runs on a slice of at most 12 elements: each element in turn moves left past every
  neighbour it is less than. \<open>insertLeft lt x rs\<close> takes the part already sorted in
  reverse, nearest neighbour first (\<open>lt\<close> is the function \<open>less\<close>).
\<close>

fun insertLeft :: "('a \<Rightarrow> 'a \<Rightarrow> bool) \<Rightarrow> 'a \<Rightarrow> 'a list \<Rightarrow> 'a list" where
  "insertLeft lt x [] = [x]"
| "insertLeft lt x (y # rs) = (if lt x y then y # insertLeft lt x rs else x # y # rs)"

definition sortSlice :: "('a \<Rightarrow> 'a \<Rightarrow> bool) \<Rightarrow> 'a list \<Rightarrow> 'a list" where
  "sortSlice lt xs = rev (foldl (\<lambda>rs x. insertLeft lt x rs) [] xs)"

text \<open>The loop over \<open>printFailedDetail\<close>: what it printed, and the panic that ended it.\<close>

fun failedDetailLoop :: "testAnalysis list \<Rightarrow> printed list \<times> panic option" where
  "failedDetailLoop [] = ([], None)"
| "failedDetailLoop (ta # results) =
     (case printFailedDetail ta of
        Inl p \<Rightarrow> ([], Some p)
      | Inr out \<Rightarrow> (case failedDetailLoop results of (out', p) \<Rightarrow> (out @ out', p)))"

definition printResults :: "testAnalysis list \<Rightarrow> bool \<Rightarrow> printed list \<times> panic option" where
  "printResults results displayFailures =
     (if results = [] then ([], None)
      else (let results = sortSlice (\<lambda>a b. label a < label b) results;
                labelLen = getMaxLabel results;
                summary = [Println [[CHR 0x0A] @ ''Results:'']]
                          @ map (\<lambda>ta. printSummary ta labelLen) results
                          @ [Println []]
            in if displayFailures
               then (case failedDetailLoop results of
                       (out, Some p) \<Rightarrow> (summary @ out, Some p)
                     | (out, None) \<Rightarrow> (summary @ out @ [Println []], None))
               else (summary, None)))"

section \<open>Example environments\<close>

text \<open>
  The workspace of the end-to-end scenario: \<open>/w/go.work\<close> lists \<open>pkgA\<close>, whose five tests
  pass, and \<open>pkgB\<close>, where one test of four fails; the program starts in \<open>/w/pkgA\<close>.
  The analyzer rejects every output but those of the two packages and the empty one, so
  it rejects what the test run of a third directory, \<open>/w/pkgC\<close>, prints.
\<close>

definition exampleFile :: osFile where
  "exampleFile =
     \<lparr>Lines = [''go 1.18'', [], ''use ('', [CHR 0x09] @ ''./pkgA'', [CHR 0x09] @ ''./pkgB'', '')''],
      ScanErr = None, CloseErr = None\<rparr>"

definition exampleWorld :: world where
  "exampleWorld =
     \<lparr>Getwd = Inr ''/w/pkgA'',
      ReadDir = (\<lambda>d. if d = ''/w/pkgA'' then Inr [''a.go'', ''a_test.go'']
                     else if d = ''/w'' then Inr [''go.work'', ''pkgA'', ''pkgB'']
                     else if d = ''/'' then Inr [''w'']
                     else Inl ''no such file or directory''),
      Open = (\<lambda>f. if f = ''/w/go.work'' then Inr exampleFile
                  else Inl ''no such file or directory''),
      CommandOutput = (\<lambda>name args.
                  if args = [''test'', ''-json'', ''/w/pkgA/...''] then (''outA'', None)
                  else if args = [''test'', ''-json'', ''/w/pkgB/...'']
                  then (''outB'', Some ''exit status 1'')
                  else if args = [''test'', ''-json'', ''/w/pkgC/...'']
                  then (''not json'', None)
                  else ([], Some ''exit status 1'')),
      ScanTestOutput = (\<lambda>out.
                  if out = ''outA''
                  then Inr \<lparr>Total = 5, Errors = [], Failed = [], Elapsed = 1200\<rparr>
                  else if out = ''outB''
                  then Inr \<lparr>Total = 4, Errors = [], Failed = [''TestB''], Elapsed = 800\<rparr>
                  else if out = [] then Inr \<lparr>Total = 0, Errors = [], Failed = [], Elapsed = 0\<rparr>
                  else Inl ''invalid character'')\<rparr>"

text \<open>A workspace \<open>/w\<close> whose descriptor \<open>/w/go.work\<close> holds the given lines.\<close>

definition fileWorld :: "string list \<Rightarrow> world" where
  "fileWorld ls =
     \<lparr>Getwd = Inr ''/w'',
      ReadDir = (\<lambda>d. if d = ''/w'' then Inr [''go.work'']
                     else if d = ''/'' then Inr [''w'']
                     else Inl ''no such file or directory''),
      Open = (\<lambda>f. if f = ''/w/go.work''
                  then Inr \<lparr>Lines = ls, ScanErr = None, CloseErr = None\<rparr>
                  else Inl ''no such file or directory''),
      CommandOutput = (\<lambda>name args. ([], None)),
      ScanTestOutput = (\<lambda>out. Inr \<lparr>Total = 0, Errors = [], Failed = [], Elapsed = 0\<rparr>)\<rparr>"

text \<open>
  A machine whose only \<open>go.work\<close> lies in the root directory, with the program started in
  \<open>/a\<close>; and one with no \<open>go.work\<close> at all.
\<close>

definition rootWorld :: world where
  "rootWorld =
     \<lparr>Getwd = Inr ''/a'',
      ReadDir = (\<lambda>d. if d = ''/'' then Inr [''a'', ''go.work'']
                     else if d = ''/a'' then Inr []
                     else Inl ''no such file or directory''),
      Open = (\<lambda>f. if f = ''/go.work''
                  then Inr \<lparr>Lines = [''use ('', [CHR 0x09] @ ''./a'', '')''],
                            ScanErr = None, CloseErr = None\<rparr>
                  else Inl ''no such file or directory''),
      CommandOutput = (\<lambda>name args. ([], None)),
      ScanTestOutput = (\<lambda>out. Inr \<lparr>Total = 0, Errors = [], Failed = [], Elapsed = 0\<rparr>)\<rparr>"

definition bareWorld :: world where
  "bareWorld =
     \<lparr>Getwd = Inr ''/a/b'',
      ReadDir = (\<lambda>d. Inr [''main.go'']),
      Open = (\<lambda>f. Inl ''no such file or directory''),
      CommandOutput = (\<lambda>name args. ([], None)),
      ScanTestOutput = (\<lambda>out. Inr \<lparr>Total = 0, Errors = [], Failed = [], Elapsed = 0\<rparr>)\<rparr>"

section \<open>Theorems\<close>

subsection \<open>The discovery loop terminates\<close>

text \<open>
  \<open>filepath.Clean\<close> never writes more than it has read, and a separator at the end of the
  path is read but not written. So \<open>filepath.Dir\<close> returns a path of length 1 or a path
  shorter than its argument, and the loop of \<open>getWorkspacePaths\<close> ends.
\<close>

lemma trailingSep_Nil: "trailingSep [] = 0"
  by (simp add: trailingSep_def)

lemma trailingSep_Cons: "cs \<noteq> [] \<Longrightarrow> trailingSep (c # cs) = trailingSep cs"
  by (simp add: trailingSep_def)

lemma trailingSep_single: "trailingSep [c] = (if c = CHR ''/'' then 1 else 0)"
  by (simp add: trailingSep_def)

lemma dropWhile_start:
  "dropWhile (\<lambda>x. x \<noteq> CHR ''/'') xs = [] \<or> hd (dropWhile (\<lambda>x. x \<noteq> CHR ''/'') xs) = CHR ''/''"
  using hd_dropWhile [of "\<lambda>x. x \<noteq> CHR ''/''" xs] by auto

lemma trailingSep_dropWhile:
  "trailingSep (dropWhile (\<lambda>x. x \<noteq> CHR ''/'') xs) = trailingSep xs"
proof (induction xs)
  case Nil
  show ?case by simp
next
  case (Cons x xs)
  show ?case
  proof (cases "x = CHR ''/''")
    case True
    then show ?thesis by simp
  next
    case False
    show ?thesis
    proof (cases "xs = []")
      case True
      then show ?thesis using False by (simp add: trailingSep_def)
    next
      case ne: False
      then show ?thesis using False Cons.IH by (simp add: trailingSep_Cons)
    qed
  qed
qed

lemma length_take_drop_While:
  "length (takeWhile P xs) + length (dropWhile P xs) = length xs"
  using takeWhile_dropWhile_id [of P xs] by (metis length_append)

lemma bound_strongI: "(l::nat) \<le> r \<Longrightarrow> l \<le> r + 1 \<and> (P \<longrightarrow> l \<le> r)"
  by simp

lemma cleanLoop_length:
  "length (cleanLoop rooted out dotdot rest) + trailingSep rest \<le> length out + length rest + 1
   \<and> (rest = [] \<or> hd rest = CHR ''/'' \<or> atBase rooted out \<longrightarrow>
        length (cleanLoop rooted out dotdot rest) + trailingSep rest \<le> length out + length rest)"
proof (induction rooted out dotdot rest rule: cleanLoop.induct)
  case (1 rooted out dotdot)
  show ?case by (simp add: trailingSep_Nil)
next
  case (2 rooted out dotdot c cs)
  let ?dot = "c = CHR ''.'' \<and> (cs = [] \<or> hd cs = CHR ''/'')"
  let ?dotdot = "c = CHR ''.'' \<and> cs \<noteq> [] \<and> hd cs = CHR ''.''
                   \<and> (tl cs = [] \<or> hd (tl cs) = CHR ''/'')"
  let ?L = "length (cleanLoop rooted out dotdot (c # cs)) + trailingSep (c # cs)"
  let ?R = "length out + length (c # cs)"
  have nonempty: "\<not> c # cs = []" by simp
  consider (sep) "c = CHR ''/''"
    | (dot) "c \<noteq> CHR ''/''" "?dot"
    | (dotdot) "c \<noteq> CHR ''/''" "\<not> ?dot" "?dotdot"
    | (elem) "c \<noteq> CHR ''/''" "\<not> ?dot" "\<not> ?dotdot"
    by blast
  then show ?case
  proof cases
    case sep
    have eq: "cleanLoop rooted out dotdot (c # cs) = cleanLoop rooted out dotdot cs"
      using sep by simp
    note IH = "2.IH"(1) [OF sep]
    show ?thesis
    proof (cases "cs = []")
      case True
      then have "trailingSep (c # cs) = 1" "length (cleanLoop rooted out dotdot cs) = length out"
        using sep by (simp_all add: trailingSep_single)
      then have "?L \<le> ?R" using eq by simp
      then show ?thesis by (rule bound_strongI)
    next
      case False
      then have "trailingSep (c # cs) = trailingSep cs" by (rule trailingSep_Cons)
      moreover have "length (cleanLoop rooted out dotdot cs) + trailingSep cs
                       \<le> length out + length cs + 1"
        using IH by blast
      ultimately have "?L \<le> ?R" using eq by simp
      then show ?thesis by (rule bound_strongI)
    qed
  next
    case dot
    have eq: "cleanLoop rooted out dotdot (c # cs) = cleanLoop rooted out dotdot cs"
      using dot by simp
    note IH = "2.IH"(2) [OF dot]
    have b: "length (cleanLoop rooted out dotdot cs) + trailingSep cs \<le> length out + length cs"
      using IH dot by blast
    have "trailingSep (c # cs) \<le> trailingSep cs"
    proof (cases "cs = []")
      case True
      then show ?thesis using dot by (simp add: trailingSep_single)
    next
      case False
      then show ?thesis by (simp add: trailingSep_Cons)
    qed
    then have "?L \<le> ?R" using b eq by simp
    then show ?thesis by (rule bound_strongI)
  next
    case dotdot
    from dotdot obtain d ds where cs: "cs = d # ds" by (cases cs) auto
    have nxt: "ds = [] \<or> hd ds = CHR ''/''" using dotdot cs by simp
    have t: "trailingSep (c # cs) \<le> trailingSep ds"
    proof (cases "ds = []")
      case True
      then show ?thesis using dotdot cs by (simp add: trailingSep_def)
    next
      case False
      then show ?thesis using cs by (simp add: trailingSep_Cons)
    qed
    have len: "length (c # cs) = length ds + 2" using cs by simp
    have tl: "tl cs = ds" using cs by simp
    show ?thesis
    proof (cases "dotdot < length out")
      case True
      let ?out = "take (backtrackTo out dotdot (length out - 1)) out"
      have eq: "cleanLoop rooted out dotdot (c # cs) = cleanLoop rooted ?out dotdot ds"
        using dotdot True cs by simp
      have "length (cleanLoop rooted ?out dotdot ds) + trailingSep ds \<le> length ?out + length ds"
        using "2.IH"(3) [OF dotdot True] nxt unfolding tl by blast
      moreover have "length ?out \<le> length out" by simp
      ultimately have "?L \<le> ?R" using t len unfolding eq by linarith
      then show ?thesis by (rule bound_strongI)
    next
      case False
      show ?thesis
      proof (cases rooted)
        case True
        have eq: "cleanLoop rooted out dotdot (c # cs) = cleanLoop rooted out dotdot ds"
          using dotdot False True cs by simp
        have "length (cleanLoop rooted out dotdot ds) + trailingSep ds \<le> length out + length ds"
          using "2.IH"(5) [OF dotdot False] True nxt unfolding tl by blast
        then have "?L \<le> ?R" using t len unfolding eq by linarith
        then show ?thesis by (rule bound_strongI)
      next
        case nr: False
        let ?out = "(if 0 < length out then out @ ''/'' else out) @ ''..''"
        have eq: "cleanLoop rooted out dotdot (c # cs) = cleanLoop rooted ?out (length ?out) ds"
          using dotdot False nr cs by simp
        have ih: "length (cleanLoop rooted ?out (length ?out) ds) + trailingSep ds
                    \<le> length ?out + length ds"
          using "2.IH"(4) [OF dotdot False nr] nxt unfolding tl by blast
        have a: "length ?out \<le> length out + 3" by simp
        have b: "atBase rooted out \<longrightarrow> length ?out = length out + 2"
          using nr by (simp add: atBase_def)
        have hd: "\<not> hd (c # cs) = CHR ''/''" using dotdot by simp
        have A: "?L \<le> ?R + 1" using t len ih a unfolding eq by linarith
        have B: "atBase rooted out \<longrightarrow> ?L \<le> ?R"
        proof
          assume "atBase rooted out"
          then have "length ?out = length out + 2" using b by blast
          then show "?L \<le> ?R" using t len ih unfolding eq by linarith
        qed
        show ?thesis using A B nonempty hd by blast
      qed
    qed
  next
    case elem
    let ?out = "(if rooted \<and> length out \<noteq> 1 \<or> \<not> rooted \<and> length out \<noteq> 0
                 then out @ ''/'' else out) @ takeWhile (\<lambda>x. x \<noteq> CHR ''/'') (c # cs)"
    let ?rest = "dropWhile (\<lambda>x. x \<noteq> CHR ''/'') (c # cs)"
    have eq: "cleanLoop rooted out dotdot (c # cs) = cleanLoop rooted ?out dotdot ?rest"
      using elem by (simp only: cleanLoop.simps if_False)
    have "?rest = [] \<or> hd ?rest = CHR ''/''" by (rule dropWhile_start)
    then have ih: "length (cleanLoop rooted ?out dotdot ?rest) + trailingSep ?rest
                     \<le> length ?out + length ?rest"
      using "2.IH"(6) [OF elem] by blast
    have t: "trailingSep ?rest = trailingSep (c # cs)" by (rule trailingSep_dropWhile)
    have split: "length (takeWhile (\<lambda>x. x \<noteq> CHR ''/'') (c # cs)) + length ?rest = length (c # cs)"
      by (rule length_take_drop_While)
    have a: "length ?out \<le> length out + 1 + length (takeWhile (\<lambda>x. x \<noteq> CHR ''/'') (c # cs))"
      by simp
    have b: "atBase rooted out \<longrightarrow>
               length ?out = length out + length (takeWhile (\<lambda>x. x \<noteq> CHR ''/'') (c # cs))"
      by (simp add: atBase_def)
    have hd: "\<not> hd (c # cs) = CHR ''/''" using elem by simp
    have A: "?L \<le> ?R + 1"
      using ih t split a unfolding eq by linarith
    have B: "atBase rooted out \<longrightarrow> ?L \<le> ?R"
    proof
      assume "atBase rooted out"
      then have "length ?out = length out + length (takeWhile (\<lambda>x. x \<noteq> CHR ''/'') (c # cs))"
        using b by blast
      then show "?L \<le> ?R" using ih t split unfolding eq by linarith
    qed
    show ?thesis using A B nonempty hd by blast
  qed
qed

lemma Clean_trailing_shorter:
  assumes "s \<noteq> []" and "last s = CHR ''/''"
  shows "length (Clean s) = 1 \<or> length (Clean s) < length s"
proof (cases "hd s = CHR ''/''")
  case True
  then obtain cs where s: "s = CHR ''/'' # cs" using assms(1) by (cases s) auto
  let ?out = "cleanLoop True ''/'' 1 cs"
  have clean: "Clean s = (if ?out = [] then ''.'' else ?out)"
    using s by (simp add: Clean_def)
  have "atBase True ''/''" by (simp add: atBase_def)
  then have bound: "length ?out + trailingSep cs \<le> length ''/'' + length cs"
    using cleanLoop_length [of True "''/''" 1 cs] by blast
  show ?thesis
  proof (cases "cs = []")
    case True
    then show ?thesis using clean by simp
  next
    case False
    then have "last cs = CHR ''/''" using assms(2) s by simp
    then have "trailingSep cs = 1" using False by (simp add: trailingSep_def)
    then have "length ?out < length s" using bound s by simp
    then show ?thesis using clean by (cases "?out = []") simp_all
  qed
next
  case False
  let ?out = "cleanLoop False [] 0 s"
  have clean: "Clean s = (if ?out = [] then ''.'' else ?out)"
    using False assms(1) by (simp add: Clean_def)
  have "atBase False []" by (simp add: atBase_def)
  then have bound: "length ?out + trailingSep s \<le> length ([]::string) + length s"
    using cleanLoop_length [of False "[]" 0 s] by blast
  have "trailingSep s = 1" using assms by (simp add: trailingSep_def)
  then have "length ?out < length s" using bound by simp
  then show ?thesis using clean by (cases "?out = []") simp_all
qed

lemma Dir_shorter: "length (Dir path) = 1 \<or> length (Dir path) < length path"
proof -
  let ?s = "rev (dropWhile (\<lambda>x. x \<noteq> CHR ''/'') (rev path))"
  have le: "length ?s \<le> length path"
    using length_dropWhile_le [of "\<lambda>x. x \<noteq> CHR ''/''" "rev path"] by simp
  show ?thesis
  proof (cases "?s = []")
    case True
    have "Clean [] = ''.''" by (simp add: Clean_def)
    then have "Dir path = ''.''" using True by (simp only: Dir_def)
    then show ?thesis by simp
  next
    case False
    then have ne: "dropWhile (\<lambda>x. x \<noteq> CHR ''/'') (rev path) \<noteq> []" by simp
    then have "hd (dropWhile (\<lambda>x. x \<noteq> CHR ''/'') (rev path)) = CHR ''/''"
      using dropWhile_start [of "rev path"] by blast
    then have "last ?s = CHR ''/''" using ne by (simp add: last_rev)
    then have "length (Clean ?s) = 1 \<or> length (Clean ?s) < length ?s"
      using False by (rule Clean_trailing_shorter [rotated])
    then show ?thesis using le by (auto simp add: Dir_def)
  qed
qed

termination walkUp
proof (relation "measure (\<lambda>(w, path). length path)")
  show "wf (measure (\<lambda>(w, path). length path))" by simp
next
  fix w :: world and path :: string and entries :: "string list"
  assume "length (Dir path) \<noteq> 1"
  then have "length (Dir path) < length path" using Dir_shorter [of path] by blast
  then show "((w, Dir path), (w, path)) \<in> measure (\<lambda>(w, path). length path)" by simp
qed

declare walkUp.simps [simp del]

subsection \<open>Result presentation\<close>

lemma maxLabelLoop_Max:
  "maxLabelLoop results m = Max (insert m ((\<lambda>ta. int (length (label ta))) ` set results))"
proof (induction results arbitrary: m)
  case Nil
  show ?case by simp
next
  case (Cons ta results)
  let ?l = "int (length (label ta))"
  let ?S = "(\<lambda>ta. int (length (label ta))) ` set results"
  have fin: "finite ?S" by simp
  have step: "maxLabelLoop (ta # results) m = maxLabelLoop results (max m ?l)"
    by (simp add: max_def)
  have "Max (insert (max m ?l) ?S) = Max (insert m (insert ?l ?S))"
  proof (cases "?S = {}")
    case True
    then show ?thesis by simp
  next
    case False
    then show ?thesis
      using fin
      by (simp only: Max_insert finite_insert insert_not_empty not_False_eq_True max.assoc)
  qed
  moreover have "maxLabelLoop results (max m ?l) = Max (insert (max m ?l) ?S)"
    by (rule Cons.IH)
  ultimately have "maxLabelLoop (ta # results) m = Max (insert m (insert ?l ?S))"
    using step by (simp only:)
  then show ?case by (simp only: list.set image_insert)
qed

text \<open>
  C7. For a non-empty list of records, \<open>getMaxLabel\<close> is the length of the longest label
  plus one; labels of lengths 3, 7 and 1 give the width 8.
\<close>

theorem getMaxLabel_longest_plus_one:
  "results \<noteq> [] \<Longrightarrow>
     getMaxLabel results = Max ((\<lambda>ta. int (length (label ta))) ` set results) + 1"
proof -
  assume ne: "results \<noteq> []"
  let ?S = "(\<lambda>ta. int (length (label ta))) ` set results"
  have fin: "finite ?S" by simp
  have nonempty: "?S \<noteq> {}" using ne by simp
  have "int (length (label (hd results))) \<in> ?S" using ne by simp
  then have "int (length (label (hd results))) \<le> Max ?S" using fin by simp
  then have "0 \<le> Max ?S" by linarith
  then have "max 0 (Max ?S) = Max ?S" by (rule max_absorb2)
  moreover have "Max (insert 0 ?S) = max 0 (Max ?S)"
    using fin nonempty by (rule Max_insert)
  ultimately have "Max (insert 0 ?S) = Max ?S" by linarith
  moreover have "getMaxLabel results = Max (insert 0 ?S) + 1"
    unfolding getMaxLabel_def by (simp only: maxLabelLoop_Max)
  ultimately show ?thesis by linarith
qed

theorem getMaxLabel_longest_plus_one_witness:
  "[\<lparr>testExec = \<lparr>Total = 1, Errors = [], Failed = [], Elapsed = 0\<rparr>, label = ''abc''\<rparr>,
    \<lparr>testExec = \<lparr>Total = 1, Errors = [], Failed = [], Elapsed = 0\<rparr>, label = ''abcdefg''\<rparr>,
    \<lparr>testExec = \<lparr>Total = 1, Errors = [], Failed = [], Elapsed = 0\<rparr>, label = ''a''\<rparr>] \<noteq> []
   \<and> getMaxLabel
       [\<lparr>testExec = \<lparr>Total = 1, Errors = [], Failed = [], Elapsed = 0\<rparr>, label = ''abc''\<rparr>,
        \<lparr>testExec = \<lparr>Total = 1, Errors = [], Failed = [], Elapsed = 0\<rparr>, label = ''abcdefg''\<rparr>,
        \<lparr>testExec = \<lparr>Total = 1, Errors = [], Failed = [], Elapsed = 0\<rparr>, label = ''a''\<rparr>] = 8"
  using getMaxLabel_longest_plus_one
    [of "[\<lparr>testExec = \<lparr>Total = 1, Errors = [], Failed = [], Elapsed = 0\<rparr>, label = ''abc''\<rparr>,
          \<lparr>testExec = \<lparr>Total = 1, Errors = [], Failed = [], Elapsed = 0\<rparr>, label = ''abcdefg''\<rparr>,
          \<lparr>testExec = \<lparr>Total = 1, Errors = [], Failed = [], Elapsed = 0\<rparr>, label = ''a''\<rparr>]"]
  by simp

lemma icons_distinct:
  "iconSkipped \<noteq> iconFailure \<and> iconSkipped \<noteq> iconSuccess \<and> iconFailure \<noteq> iconSuccess"
  by (simp add: iconSkipped_def iconFailure_def iconSuccess_def colorRed_def colorGreen_def
        colorYellow_def colorReset_def)

text \<open>
  C3. The icon of the summary line: no test at all gives the skipped icon; some tests with
  an error or a failed test give the failure icon, and the counts of errors and of failed
  tests are printed; some tests and neither give the success icon and no such counts. The
  three icons differ.
\<close>

theorem printSummary_icon:
  "(Total (testExec ta) = 0 \<longrightarrow>
      printSummary ta labelLen =
        Printf (''%s %*s'' @ [CHR 0x0A]) [AStr iconSkipped, AInt labelLen, AStr (label ta)])
   \<and> (Total (testExec ta) > 0
        \<and> (length (Errors (testExec ta)) > 0 \<or> length (Failed (testExec ta)) > 0) \<longrightarrow>
      printSummary ta labelLen =
        Printf (''%s %*s  %3d tests (%s) (%d errors) (%d failed)'' @ [CHR 0x0A])
          [AStr iconFailure, AInt labelLen, AStr (label ta), AInt (Total (testExec ta)),
           ASeconds (Elapsed (testExec ta)) 3,
           AInt (int (length (Errors (testExec ta)))),
           AInt (int (length (Failed (testExec ta))))])
   \<and> (Total (testExec ta) > 0
        \<and> length (Errors (testExec ta)) = 0 \<and> length (Failed (testExec ta)) = 0 \<longrightarrow>
      printSummary ta labelLen =
        Printf (''%s %*s  %3d tests (%s)'' @ [CHR 0x0A])
          [AStr iconSuccess, AInt labelLen, AStr (label ta), AInt (Total (testExec ta)),
           ASeconds (Elapsed (testExec ta)) 3])
   \<and> iconSkipped \<noteq> iconFailure \<and> iconSkipped \<noteq> iconSuccess \<and> iconFailure \<noteq> iconSuccess"
proof (intro conjI impI)
  assume "Total (testExec ta) = 0"
  then show "printSummary ta labelLen =
      Printf (''%s %*s'' @ [CHR 0x0A]) [AStr iconSkipped, AInt labelLen, AStr (label ta)]"
    by (simp add: printSummary_def)
next
  assume "Total (testExec ta) > 0
        \<and> (length (Errors (testExec ta)) > 0 \<or> length (Failed (testExec ta)) > 0)"
  then show "printSummary ta labelLen =
        Printf (''%s %*s  %3d tests (%s) (%d errors) (%d failed)'' @ [CHR 0x0A])
          [AStr iconFailure, AInt labelLen, AStr (label ta), AInt (Total (testExec ta)),
           ASeconds (Elapsed (testExec ta)) 3,
           AInt (int (length (Errors (testExec ta)))),
           AInt (int (length (Failed (testExec ta))))]"
    unfolding printSummary_def by auto
next
  assume "Total (testExec ta) > 0
        \<and> length (Errors (testExec ta)) = 0 \<and> length (Failed (testExec ta)) = 0"
  then show "printSummary ta labelLen =
        Printf (''%s %*s  %3d tests (%s)'' @ [CHR 0x0A])
          [AStr iconSuccess, AInt labelLen, AStr (label ta), AInt (Total (testExec ta)),
           ASeconds (Elapsed (testExec ta)) 3]"
    unfolding printSummary_def by auto
qed (simp_all add: icons_distinct)

theorem printSummary_icon_witness:
  "printSummary \<lparr>testExec = \<lparr>Total = 0, Errors = [], Failed = [], Elapsed = 0\<rparr>, label = ''p''\<rparr> 2
     = Printf (''%s %*s'' @ [CHR 0x0A]) [AStr iconSkipped, AInt 2, AStr ''p'']
   \<and> printSummary
         \<lparr>testExec = \<lparr>Total = 4, Errors = [], Failed = [''TestX''], Elapsed = 7\<rparr>, label = ''p''\<rparr> 2
     = Printf (''%s %*s  %3d tests (%s) (%d errors) (%d failed)'' @ [CHR 0x0A])
         [AStr iconFailure, AInt 2, AStr ''p'', AInt 4, ASeconds 7 3, AInt 0, AInt 1]
   \<and> printSummary
         \<lparr>testExec = \<lparr>Total = 5, Errors = [], Failed = [], Elapsed = 7\<rparr>, label = ''p''\<rparr> 2
     = Printf (''%s %*s  %3d tests (%s)'' @ [CHR 0x0A])
         [AStr iconSuccess, AInt 2, AStr ''p'', AInt 5, ASeconds 7 3]"
  using printSummary_icon
          [of "\<lparr>testExec = \<lparr>Total = 0, Errors = [], Failed = [], Elapsed = 0\<rparr>, label = ''p''\<rparr>" 2]
        printSummary_icon
          [of "\<lparr>testExec = \<lparr>Total = 4, Errors = [], Failed = [''TestX''], Elapsed = 7\<rparr>,
               label = ''p''\<rparr>" 2]
        printSummary_icon
          [of "\<lparr>testExec = \<lparr>Total = 5, Errors = [], Failed = [], Elapsed = 7\<rparr>, label = ''p''\<rparr>" 2]
  by simp

lemma sdiv_banner: "((80 - int n) sdiv 2 < 0) = (82 \<le> n)"
proof -
  have "n \<le> 80 \<or> n = 81 \<or> 82 \<le> n" by arith
  then show ?thesis
  proof (elim disjE)
    assume "n \<le> 80"
    then show ?thesis by (simp add: signed_divide_int_def sgn_if)
  next
    assume "n = 81"
    then show ?thesis by (simp add: signed_divide_int_def)
  next
    assume h: "82 \<le> n"
    then have "2 \<le> int n - 80" by simp
    then have "1 \<le> (int n - 80) div 2" by simp
    then show ?thesis using h by (simp add: signed_divide_int_def sgn_if)
  qed
qed

lemma sdiv_banner_le: "(80 - int n) sdiv 2 \<le> 40"
proof (cases "n \<le> 80")
  case True
  then have "(80 - int n) div 2 \<le> 40" by simp
  then show ?thesis using True by (simp add: signed_divide_int_def sgn_if)
next
  case False
  then have "0 \<le> (int n - 80) div 2" by simp
  then show ?thesis using False by (simp add: signed_divide_int_def sgn_if)
qed



text \<open>
  C5. When the analyzer cannot parse the output, \<open>analyzeTest\<close> panics: it returns no
  record.
\<close>

theorem analyzeTest_panics_on_scan_error:
  "ScanTestOutput w out = Inl err \<Longrightarrow>
     analyzeTest w wPath path out = Inl (Panic (''failed to scan testjson: '' @ err))
     \<and> (\<forall>ta. analyzeTest w wPath path out \<noteq> Inr ta)"
  by (simp add: analyzeTest_def)

theorem analyzeTest_panics_on_scan_error_witness:
  "ScanTestOutput exampleWorld ''not json'' = Inl ''invalid character''
   \<and> analyzeTest exampleWorld ''/w'' ''/w/pkgA'' ''not json''
       = Inl (Panic ''failed to scan testjson: invalid character'')"
  using analyzeTest_panics_on_scan_error
          [of exampleWorld "''not json''" "''invalid character''" "''/w''" "''/w/pkgA''"]
  by (simp add: exampleWorld_def)

lemma set_insertLeft: "set (insertLeft lt x rs) = insert x (set rs)"
  by (induction rs) auto

lemma mset_insertLeft: "mset (insertLeft lt x rs) = add_mset x (mset rs)"
  by (induction rs) auto

lemma descending_insertLeft:
  fixes f :: "'a \<Rightarrow> 'b::linorder"
  assumes "sorted_wrt (\<lambda>a b. f b \<le> f a) rs"
  shows "sorted_wrt (\<lambda>a b. f b \<le> f a) (insertLeft (\<lambda>a b. f a < f b) x rs)"
  using assms
proof (induction rs)
  case Nil
  show ?case by simp
next
  case (Cons y rs)
  show ?case
  proof (cases "f x < f y")
    case True
    have "\<forall>z \<in> set (insertLeft (\<lambda>a b. f a < f b) x rs). f z \<le> f y"
      using Cons.prems True by (auto simp: set_insertLeft)
    moreover have "sorted_wrt (\<lambda>a b. f b \<le> f a) (insertLeft (\<lambda>a b. f a < f b) x rs)"
      using Cons.IH Cons.prems by simp
    ultimately show ?thesis using True by simp
  next
    case False
    then have "f y \<le> f x" by simp
    moreover have "\<forall>z \<in> set rs. f z \<le> f x"
      using Cons.prems \<open>f y \<le> f x\<close> by auto
    ultimately show ?thesis using False Cons.prems by simp
  qed
qed

lemma foldl_insertLeft:
  fixes f :: "'a \<Rightarrow> 'b::linorder"
  shows "sorted_wrt (\<lambda>a b. f b \<le> f a) acc \<Longrightarrow>
     sorted_wrt (\<lambda>a b. f b \<le> f a) (foldl (\<lambda>rs x. insertLeft (\<lambda>a b. f a < f b) x rs) acc xs)
     \<and> mset (foldl (\<lambda>rs x. insertLeft (\<lambda>a b. f a < f b) x rs) acc xs) = mset acc + mset xs"
proof (induction xs arbitrary: acc)
  case Nil
  then show ?case by simp
next
  case (Cons x xs)
  have "sorted_wrt (\<lambda>a b. f b \<le> f a) (insertLeft (\<lambda>a b. f a < f b) x acc)"
    using Cons.prems by (rule descending_insertLeft)
  from Cons.IH [OF this] show ?case by (simp add: mset_insertLeft)
qed

lemma sortSlice_sorted:
  fixes f :: "'a \<Rightarrow> 'b::linorder"
  shows "sorted (map f (sortSlice (\<lambda>a b. f a < f b) xs))"
proof -
  have "sorted_wrt (\<lambda>a b. f b \<le> f a) (foldl (\<lambda>rs x. insertLeft (\<lambda>a b. f a < f b) x rs) [] xs)"
    using foldl_insertLeft [of f "[]" xs] by simp
  then show ?thesis
    by (simp add: sortSlice_def sorted_map sorted_wrt_rev)
qed

lemma mset_sortSlice:
  fixes f :: "'a \<Rightarrow> 'b::linorder"
  shows "mset (sortSlice (\<lambda>a b. f a < f b) xs) = mset xs"
  using foldl_insertLeft [of f "[]" xs] by (simp add: sortSlice_def)

text \<open>
  C6. \<open>printResults\<close> prints the summary lines in ascending order of the labels: the
  records it prints are the records it was given, rearranged so that the labels are
  sorted, and the failure details follow in the same order. For no records it prints
  nothing. Records with the labels \<open>b\<close>, \<open>a\<close>, \<open>c\<close> are printed in the order \<open>a\<close>, \<open>b\<close>,
  \<open>c\<close>.
\<close>

theorem printResults_sorted_by_label:
  "sorted (map label (sortSlice (\<lambda>a b. label a < label b) results))
   \<and> mset (sortSlice (\<lambda>a b. label a < label b) results) = mset results
   \<and> fst (printResults results displayFailures) =
       (if results = [] then []
        else Println [[CHR 0x0A] @ ''Results:'']
             # map (\<lambda>ta. printSummary ta
                            (getMaxLabel (sortSlice (\<lambda>a b. label a < label b) results)))
                 (sortSlice (\<lambda>a b. label a < label b) results)
             @ Println []
             # (if displayFailures
                then fst (failedDetailLoop (sortSlice (\<lambda>a b. label a < label b) results))
                     @ (if snd (failedDetailLoop (sortSlice (\<lambda>a b. label a < label b) results))
                           = None
                        then [Println []] else [])
                else []))"
proof -
  let ?rs = "sortSlice (\<lambda>a b. label a < label b) results"
  have s: "sorted (map label ?rs)" by (rule sortSlice_sorted)
  have m: "mset ?rs = mset results" by (rule mset_sortSlice)
  have p: "fst (printResults results displayFailures) =
       (if results = [] then []
        else Println [[CHR 0x0A] @ ''Results:'']
             # map (\<lambda>ta. printSummary ta (getMaxLabel ?rs)) ?rs
             @ Println []
             # (if displayFailures
                then fst (failedDetailLoop ?rs)
                     @ (if snd (failedDetailLoop ?rs) = None then [Println []] else [])
                else []))"
    by (simp add: printResults_def Let_def split: prod.splits option.splits)
  show ?thesis using s m p by blast
qed

theorem printResults_sorted_by_label_witness:
  "fst (printResults
         [\<lparr>testExec = \<lparr>Total = 0, Errors = [], Failed = [], Elapsed = 0\<rparr>, label = ''b''\<rparr>,
          \<lparr>testExec = \<lparr>Total = 0, Errors = [], Failed = [], Elapsed = 0\<rparr>, label = ''a''\<rparr>,
          \<lparr>testExec = \<lparr>Total = 0, Errors = [], Failed = [], Elapsed = 0\<rparr>, label = ''c''\<rparr>]
         False)
     = [Println [[CHR 0x0A] @ ''Results:''],
        Printf (''%s %*s'' @ [CHR 0x0A]) [AStr iconSkipped, AInt 2, AStr ''a''],
        Printf (''%s %*s'' @ [CHR 0x0A]) [AStr iconSkipped, AInt 2, AStr ''b''],
        Printf (''%s %*s'' @ [CHR 0x0A]) [AStr iconSkipped, AInt 2, AStr ''c''],
        Println []]"
  using printResults_sorted_by_label
    [of "[\<lparr>testExec = \<lparr>Total = 0, Errors = [], Failed = [], Elapsed = 0\<rparr>, label = ''b''\<rparr>,
          \<lparr>testExec = \<lparr>Total = 0, Errors = [], Failed = [], Elapsed = 0\<rparr>, label = ''a''\<rparr>,
          \<lparr>testExec = \<lparr>Total = 0, Errors = [], Failed = [], Elapsed = 0\<rparr>, label = ''c''\<rparr>]" False]
  by (simp add: sortSlice_def getMaxLabel_def printSummary_def)

subsection \<open>Descriptor parsing\<close>

lemma scanLoop_not_capturing:
  "\<forall>l \<in> set ls. \<not> HasPrefix l ''use ('' \<Longrightarrow> scanLoop path ls False packages = packages"
  by (induction ls arbitrary: packages) simp_all

lemma scanLoop_capturing:
  "scanLoop path ls True packages =
     packages @ map (\<lambda>l. Join [path, TrimSpace l]) (filter (\<lambda>l. \<not> Contains l '')'') ls)"
  by (induction ls arbitrary: packages) simp_all

lemma scanLoop_before_opening:
  "\<forall>l \<in> set pre. \<not> HasPrefix l ''use ('' \<Longrightarrow>
     scanLoop path (pre @ ls) False packages = scanLoop path ls False packages"
  by (induction pre arbitrary: packages) simp_all

lemma scanLoop_opening:
  assumes "\<forall>l \<in> set pre. \<not> HasPrefix l ''use (''" and "HasPrefix opening ''use (''"
  shows "scanLoop path (pre @ opening # rest) False [] =
           map (\<lambda>l. Join [path, TrimSpace l]) (filter (\<lambda>l. \<not> Contains l '')'') rest)"
proof -
  have "scanLoop path (pre @ opening # rest) False [] = scanLoop path (opening # rest) False []"
    using assms(1) by (rule scanLoop_before_opening)
  also have "\<dots> = scanLoop path rest True []" using assms(2) by simp
  also have "\<dots> = map (\<lambda>l. Join [path, TrimSpace l]) (filter (\<lambda>l. \<not> Contains l '')'') rest)"
    by (simp add: scanLoop_capturing)
  finally show ?thesis .
qed

text \<open>
  C9. A descriptor no line of which holds the opening token \<open>use (\<close> gives the empty
  member list, and nothing is logged unless reading or closing the file fails. (The
  parser looks for the token at the start of a line only.)
\<close>

theorem readWorkspaceFile_no_opening_token:
  "Open w (Join [path, filename]) = Inr f \<Longrightarrow>
   \<forall>line \<in> set (Lines f). \<not> Contains line ''use ('' \<Longrightarrow>
     fst (readWorkspaceFile w path filename) = []
     \<and> (ScanErr f = None \<and> CloseErr f = None \<longrightarrow> snd (readWorkspaceFile w path filename) = [])"
proof -
  assume opened: "Open w (Join [path, filename]) = Inr f"
    and none: "\<forall>line \<in> set (Lines f). \<not> Contains line ''use (''"
  have "\<forall>line \<in> set (Lines f). \<not> HasPrefix line ''use (''"
    using none by (auto simp: Contains_def HasPrefix_def)
  then have "scanLoop path (Lines f) False [] = []" by (rule scanLoop_not_capturing)
  then show ?thesis
    using opened by (simp add: readWorkspaceFile_def Let_def split: option.splits)
qed

theorem readWorkspaceFile_no_opening_token_witness:
  "Open (fileWorld [''go 1.18'', [], ''use ./pkgA'']) (Join [''/w'', ''go.work''])
     = Inr \<lparr>Lines = [''go 1.18'', [], ''use ./pkgA''], ScanErr = None, CloseErr = None\<rparr>
   \<and> readWorkspaceFile (fileWorld [''go 1.18'', [], ''use ./pkgA'']) ''/w'' ''go.work'' = ([], [])"
proof -
  let ?ls = "[''go 1.18'', [], ''use ./pkgA'']"
  let ?f = "\<lparr>Lines = ?ls, ScanErr = None, CloseErr = None\<rparr>"
  have h1: "Open (fileWorld ?ls) (Join [''/w'', ''go.work'']) = Inr ?f" by code_simp
  have h2: "\<forall>line \<in> set (Lines ?f). \<not> Contains line ''use (''" by code_simp
  show ?thesis
    using h1 readWorkspaceFile_no_opening_token [OF h1 h2] by (simp add: prod_eq_iff)
qed

text \<open>
  C1, amended. Take a descriptor that is read without error and consists of lines none of
  which starts with \<open>use (\<close>, an opening line that does, the interior lines, a closing line
  that holds \<open>)\<close>, and after it only lines that hold \<open>)\<close>. Parsing returns, in file
  order, the interior lines that hold no \<open>)\<close>, each trimmed and joined with the
  directory path; a blank interior line gives the directory itself. An interior line that
  holds \<open>)\<close> is left out: the parser takes it for a closing line.
\<close>

theorem readWorkspaceFile_use_block:
  assumes "Open w (Join [path, filename]) = Inr f" and "ScanErr f = None"
    and "Lines f = pre @ [opening] @ interior @ [closing] @ post"
    and "\<forall>l \<in> set pre. \<not> HasPrefix l ''use (''"
    and "HasPrefix opening ''use (''"
    and "Contains closing '')''"
    and "\<forall>l \<in> set post. Contains l '')''"
  shows "fst (readWorkspaceFile w path filename) =
           map (\<lambda>l. Join [path, TrimSpace l]) (filter (\<lambda>l. \<not> Contains l '')'') interior)"
proof -
  have "filter (\<lambda>l. \<not> Contains l '')'') post = []" using assms(7) by (simp add: filter_empty_conv)
  then have f: "filter (\<lambda>l. \<not> Contains l '')'') (interior @ [closing] @ post) =
             filter (\<lambda>l. \<not> Contains l '')'') interior"
    using assms(6) by simp
  have "scanLoop path (Lines f) False [] =
          map (\<lambda>l. Join [path, TrimSpace l])
            (filter (\<lambda>l. \<not> Contains l '')'') (interior @ [closing] @ post))"
    using scanLoop_opening [OF assms(4) assms(5), of path "interior @ [closing] @ post"] assms(3)
    by simp
  then have "scanLoop path (Lines f) False [] =
          map (\<lambda>l. Join [path, TrimSpace l]) (filter (\<lambda>l. \<not> Contains l '')'') interior)"
    using f by simp
  then show ?thesis
    using assms(1) assms(2) by (simp add: readWorkspaceFile_def Let_def)
qed

theorem readWorkspaceFile_use_block_witness:
  "Open (fileWorld [''go 1.18'', [], ''use ('', [CHR 0x09] @ ''./pkgA'', ''  '',
                    [CHR 0x09] @ ''./pkg(b)'', ''  ./pkgB '', '')''])
     (Join [''/w'', ''go.work''])
     = Inr \<lparr>Lines = [''go 1.18'', [], ''use ('', [CHR 0x09] @ ''./pkgA'', ''  '',
                       [CHR 0x09] @ ''./pkg(b)'', ''  ./pkgB '', '')''],
            ScanErr = None, CloseErr = None\<rparr>
   \<and> fst (readWorkspaceFile
            (fileWorld [''go 1.18'', [], ''use ('', [CHR 0x09] @ ''./pkgA'', ''  '',
                        [CHR 0x09] @ ''./pkg(b)'', ''  ./pkgB '', '')''])
            ''/w'' ''go.work'')
       = [''/w/pkgA'', ''/w'', ''/w/pkgB'']"
proof -
  let ?ls = "[''go 1.18'', [], ''use ('', [CHR 0x09] @ ''./pkgA'', ''  '',
              [CHR 0x09] @ ''./pkg(b)'', ''  ./pkgB '', '')'']"
  let ?f = "\<lparr>Lines = ?ls, ScanErr = None, CloseErr = None\<rparr>"
  have h1: "Open (fileWorld ?ls) (Join [''/w'', ''go.work'']) = Inr ?f" by code_simp
  have h2: "ScanErr ?f = None" by simp
  have h3: "Lines ?f = [''go 1.18'', []] @ [''use (''] @
              [[CHR 0x09] @ ''./pkgA'', ''  '', [CHR 0x09] @ ''./pkg(b)'', ''  ./pkgB ''] @ ['')''] @ []"
    by simp
  have h4: "\<forall>l \<in> set [''go 1.18'', []]. \<not> HasPrefix l ''use (''" by (simp add: HasPrefix_def)
  have h5: "HasPrefix ''use ('' ''use (''" by (simp add: HasPrefix_def)
  have h6: "Contains '')'' '')''" by (simp add: Contains_def)
  have h7: "\<forall>l \<in> set ([]::string list). Contains l '')''" by simp
  have "map (\<lambda>l. Join [''/w'', TrimSpace l])
          (filter (\<lambda>l. \<not> Contains l '')'')
             [[CHR 0x09] @ ''./pkgA'', ''  '', [CHR 0x09] @ ''./pkg(b)'', ''  ./pkgB ''])
        = [''/w/pkgA'', ''/w'', ''/w/pkgB'']"
    by code_simp
  then show ?thesis
    using h1 readWorkspaceFile_use_block [OF h1 h2 h3 h4 h5 h6 h7] by simp
qed

text \<open>
  C1 as the specification states it fails on an interior line with a \<open>)\<close>: of the members
  \<open>./pkgA\<close> and \<open>./pkg(b)\<close> only the first is returned.
\<close>

theorem readWorkspaceFile_use_block_counterexample:
  "fst (readWorkspaceFile
          (fileWorld [''use ('', [CHR 0x09] @ ''./pkgA'', [CHR 0x09] @ ''./pkg(b)'', '')''])
          ''/w'' ''go.work'')
     \<noteq> map (\<lambda>l. Join [''/w'', TrimSpace l]) [[CHR 0x09] @ ''./pkgA'', [CHR 0x09] @ ''./pkg(b)'']
   \<and> fst (readWorkspaceFile
          (fileWorld [''use ('', [CHR 0x09] @ ''./pkgA'', [CHR 0x09] @ ''./pkg(b)'', '')''])
          ''/w'' ''go.work'')
     = [''/w/pkgA'']
   \<and> map (\<lambda>l. Join [''/w'', TrimSpace l]) [[CHR 0x09] @ ''./pkgA'', [CHR 0x09] @ ''./pkg(b)'']
     = [''/w/pkgA'', ''/w/pkg(b)'']"
  by code_simp

subsection \<open>Test execution\<close>

lemma mset_pick: "pick xs p rest \<Longrightarrow> mset xs = add_mset p (mset rest)"
  by (induction rule: pick.induct) simp_all

lemma set_pick: "pick xs p rest \<Longrightarrow> set xs = insert p (set rest)"
  by (induction rule: pick.induct) auto

lemma workers_returns:
  assumes "workers w wPath useCache pending ch res"
    and "\<forall>p \<in> set pending. \<not> isl (analyzeTest w wPath p (execTest w p useCache))"
  shows "\<exists>rs. res = Inr rs
           \<and> mset (map Inr rs) =
               mset (map Inr ch)
               + mset (map (\<lambda>p. analyzeTest w wPath p (execTest w p useCache)) pending)"
  using assms
proof (induction rule: workers.induct)
  case (closed ch)
  show ?case by simp
next
  case (sent pending p rest r ch res)
  let ?a = "\<lambda>p. analyzeTest w wPath p (execTest w p useCache)"
  have "\<forall>q \<in> set rest. \<not> isl (?a q)"
    using sent.prems set_pick [OF sent.hyps(1)] by blast
  then obtain rs where rs: "res = Inr rs"
      "mset (map Inr rs) = mset (map Inr (ch @ [r])) + mset (map ?a rest)"
    using sent.IH by blast
  have "mset pending = add_mset p (mset rest)"
    using sent.hyps(1) by (rule mset_pick)
  then have "mset (map ?a pending) = add_mset (?a p) (mset (map ?a rest))"
    by (simp only: mset_map image_mset_add_mset)
  then have "mset (map ?a pending) = add_mset (Inr r) (mset (map ?a rest))"
    using sent.hyps(2) by simp
  then show ?case using rs by simp
next
  case (panicked pending p rest e ch)
  have "p \<in> set pending" using set_pick [OF panicked.hyps(1)] by simp
  then have "\<not> isl (analyzeTest w wPath p (execTest w p useCache))"
    using panicked.prems by blast
  then show ?case using panicked.hyps(2) by simp
qed

lemma workers_can_return:
  "\<forall>p \<in> set pending. \<not> isl (analyzeTest w wPath p (execTest w p useCache)) \<Longrightarrow>
     \<exists>rs. workers w wPath useCache pending ch (Inr rs)"
proof (induction pending arbitrary: ch)
  case Nil
  show ?case using workers.closed by blast
next
  case (Cons p pending)
  from Cons.prems obtain r where r: "analyzeTest w wPath p (execTest w p useCache) = Inr r"
    by (cases "analyzeTest w wPath p (execTest w p useCache)") auto
  from Cons.prems have "\<forall>q \<in> set pending. \<not> isl (analyzeTest w wPath q (execTest w q useCache))"
    by simp
  then obtain rs where rs: "workers w wPath useCache pending (ch @ [r]) (Inr rs)"
    using Cons.IH by blast
  have "pick (p # pending) p pending" by (rule pick.here)
  then have "workers w wPath useCache (p # pending) ch (Inr rs)"
    using r rs by (rule workers.sent)
  then show ?case by blast
qed

lemma workers_no_return:
  assumes "workers w wPath useCache pending ch res" and "res = Inr rs"
  shows "\<forall>p \<in> set pending. \<not> isl (analyzeTest w wPath p (execTest w p useCache))"
  using assms
proof (induction rule: workers.induct)
  case (closed ch)
  show ?case by simp
next
  case (sent pending p rest r ch res)
  have rest: "\<forall>q \<in> set rest. \<not> isl (analyzeTest w wPath q (execTest w q useCache))"
    using sent.IH sent.prems by blast
  have "set pending = insert p (set rest)"
    using sent.hyps(1) by (rule set_pick)
  then show ?case using rest sent.hyps(2) by simp
next
  case (panicked pending p rest e ch)
  then show ?case by simp
qed

lemma analyzeTest_isl:
  "isl (analyzeTest w wPath p out) = isl (ScanTestOutput w out)"
  by (simp add: analyzeTest_def split: sum.splits)




subsection \<open>Workspace discovery\<close>

lemma find_workFile:
  "find (\<lambda>e. e = workFile) entries = (if workFile \<in> set entries then Some workFile else None)"
  by (induction entries) auto

lemma walkUp_found:
  "ReadDir w path = Inr entries \<Longrightarrow> workFile \<in> set entries \<Longrightarrow>
     walkUp w path = (path, readWorkspaceFile w path workFile)"
  by (simp add: walkUp.simps [of w path] find_workFile split: prod.splits)

lemma walkUp_parent:
  "ReadDir w path = Inr entries \<Longrightarrow> workFile \<notin> set entries \<Longrightarrow> length (Dir path) \<noteq> 1 \<Longrightarrow>
     walkUp w path = walkUp w (Dir path)"
  by (simp add: walkUp.simps [of w path] find_workFile)

lemma walkUp_root:
  "ReadDir w path = Inr entries \<Longrightarrow> workFile \<notin> set entries \<Longrightarrow> length (Dir path) = 1 \<Longrightarrow>
     walkUp w path = ([], [], [])"
  by (simp add: walkUp.simps [of w path] find_workFile)

lemma walkUp_listing_error:
  "ReadDir w path = Inl err \<Longrightarrow> walkUp w path = ([], [], [err])"
  by (simp add: walkUp.simps [of w path])

lemma walkUp_ancestor:
  "(\<forall>k<n. \<exists>entries. ReadDir w ((Dir ^^ k) path) = Inr entries \<and> workFile \<notin> set entries) \<Longrightarrow>
   (\<forall>k. 0 < k \<and> k \<le> n \<longrightarrow> length ((Dir ^^ k) path) \<noteq> 1) \<Longrightarrow>
     walkUp w path = walkUp w ((Dir ^^ n) path)"
proof (induction n arbitrary: path)
  case 0
  show ?case by simp
next
  case (Suc n)
  from Suc.prems(1) obtain entries where
    here: "ReadDir w path = Inr entries" "workFile \<notin> set entries"
    by force
  from Suc.prems(2) have "length ((Dir ^^ 1) path) \<noteq> 1" by (metis le_add1 plus_1_eq_Suc zero_less_one)
  then have notroot: "length (Dir path) \<noteq> 1" by simp
  have step: "walkUp w path = walkUp w (Dir path)"
    using here notroot by (rule walkUp_parent)
  have a: "\<forall>k<n. \<exists>entries. ReadDir w ((Dir ^^ k) (Dir path)) = Inr entries \<and> workFile \<notin> set entries"
  proof (intro allI impI)
    fix k assume "k < n"
    then have "Suc k < Suc n" by simp
    then have "\<exists>entries. ReadDir w ((Dir ^^ Suc k) path) = Inr entries \<and> workFile \<notin> set entries"
      using Suc.prems(1) by blast
    then show "\<exists>entries. ReadDir w ((Dir ^^ k) (Dir path)) = Inr entries \<and> workFile \<notin> set entries"
      by (simp add: funpow_swap1)
  qed
  have b: "\<forall>k. 0 < k \<and> k \<le> n \<longrightarrow> length ((Dir ^^ k) (Dir path)) \<noteq> 1"
  proof (intro allI impI)
    fix k assume "0 < k \<and> k \<le> n"
    then have "0 < Suc k \<and> Suc k \<le> Suc n" by simp
    then have "length ((Dir ^^ Suc k) path) \<noteq> 1" using Suc.prems(2) by blast
    then show "length ((Dir ^^ k) (Dir path)) \<noteq> 1"
      by (simp add: funpow_swap1)
  qed
  have "walkUp w (Dir path) = walkUp w ((Dir ^^ n) (Dir path))"
    using a b by (rule Suc.IH)
  then show ?case using step by (simp add: funpow_swap1)
qed

lemma walkUp_none:
  "(\<forall>k entries. ReadDir w ((Dir ^^ k) path) = Inr entries \<longrightarrow> workFile \<notin> set entries) \<Longrightarrow>
     fst (walkUp w path) = [] \<and> fst (snd (walkUp w path)) = []"
proof (induction w path rule: walkUp.induct)
  case (1 w path)
  show ?case
  proof (cases "ReadDir w path")
    case (Inl err)
    then show ?thesis by (simp add: walkUp_listing_error)
  next
    case (Inr entries)
    have "ReadDir w ((Dir ^^ 0) path) = Inr entries" using Inr by simp
    then have no: "workFile \<notin> set entries" using "1.prems" by blast
    then have f: "find (\<lambda>e. e = workFile) entries = None" by (simp add: find_workFile)
    show ?thesis
    proof (cases "length (Dir path) = 1")
      case True
      then show ?thesis using Inr no by (simp add: walkUp_root)
    next
      case False
      have "\<forall>k entries. ReadDir w ((Dir ^^ k) (Dir path)) = Inr entries \<longrightarrow> workFile \<notin> set entries"
      proof (intro allI impI)
        fix k entries assume "ReadDir w ((Dir ^^ k) (Dir path)) = Inr entries"
        then have "ReadDir w ((Dir ^^ Suc k) path) = Inr entries"
          by (simp add: funpow_swap1)
        then show "workFile \<notin> set entries" using "1.prems" by blast
      qed
      then have "fst (walkUp w (Dir path)) = [] \<and> fst (snd (walkUp w (Dir path))) = []"
        using "1.IH" [OF Inr f False] by blast
      then show ?thesis using walkUp_parent [OF Inr no False] by simp
    qed
  qed
qed

text \<open>
  C2, amended. Let the program start in \<open>cwd\<close>, and write \<open>(Dir ^^ k) cwd\<close> for its \<open>k\<close>-th
  ancestor. If the \<open>n\<close>-th ancestor holds an entry \<open>go.work\<close>, every nearer one is listed
  without error and holds none, and no ancestor from the first to the \<open>n\<close>-th is a path of
  length 1 (the root directory), then \<open>getWorkspacePaths\<close> returns the \<open>n\<close>-th ancestor and
  the member list parsed from its \<open>go.work\<close>. If no ancestor, the root included, holds
  \<open>go.work\<close>, it returns the empty root path and the nil member list.
\<close>

theorem getWorkspacePaths_nearest:
  assumes "Getwd w = Inr cwd"
  shows "((\<forall>k<n. \<exists>entries. ReadDir w ((Dir ^^ k) cwd) = Inr entries \<and> workFile \<notin> set entries)
            \<and> (\<forall>k. 0 < k \<and> k \<le> n \<longrightarrow> length ((Dir ^^ k) cwd) \<noteq> 1)
            \<and> (\<exists>entries. ReadDir w ((Dir ^^ n) cwd) = Inr entries \<and> workFile \<in> set entries)
          \<longrightarrow> getWorkspacePaths w
                = ((Dir ^^ n) cwd, readWorkspaceFile w ((Dir ^^ n) cwd) workFile))
         \<and> ((\<forall>k entries. ReadDir w ((Dir ^^ k) cwd) = Inr entries \<longrightarrow> workFile \<notin> set entries)
          \<longrightarrow> fst (getWorkspacePaths w) = [] \<and> fst (snd (getWorkspacePaths w)) = [])"
proof (intro conjI impI)
  assume h: "(\<forall>k<n. \<exists>entries. ReadDir w ((Dir ^^ k) cwd) = Inr entries \<and> workFile \<notin> set entries)
            \<and> (\<forall>k. 0 < k \<and> k \<le> n \<longrightarrow> length ((Dir ^^ k) cwd) \<noteq> 1)
            \<and> (\<exists>entries. ReadDir w ((Dir ^^ n) cwd) = Inr entries \<and> workFile \<in> set entries)"
  then have "walkUp w cwd = walkUp w ((Dir ^^ n) cwd)"
    using walkUp_ancestor [of n w cwd] by blast
  moreover have "walkUp w ((Dir ^^ n) cwd)
                   = ((Dir ^^ n) cwd, readWorkspaceFile w ((Dir ^^ n) cwd) workFile)"
    using h walkUp_found by blast
  ultimately show "getWorkspacePaths w
      = ((Dir ^^ n) cwd, readWorkspaceFile w ((Dir ^^ n) cwd) workFile)"
    using assms by (simp add: getWorkspacePaths_def)
next
  assume h: "\<forall>k entries. ReadDir w ((Dir ^^ k) cwd) = Inr entries \<longrightarrow> workFile \<notin> set entries"
  then have n: "fst (walkUp w cwd) = [] \<and> fst (snd (walkUp w cwd)) = []"
    by (rule walkUp_none)
  show "fst (getWorkspacePaths w) = []" using n assms by (simp add: getWorkspacePaths_def)
  show "fst (snd (getWorkspacePaths w)) = []" using n assms by (simp add: getWorkspacePaths_def)
qed

theorem getWorkspacePaths_nearest_witness:
  "Getwd exampleWorld = Inr ''/w/pkgA''
   \<and> getWorkspacePaths exampleWorld = (''/w'', [''/w/pkgA'', ''/w/pkgB''], [])
   \<and> Getwd bareWorld = Inr ''/a/b''
   \<and> fst (getWorkspacePaths bareWorld) = [] \<and> fst (snd (getWorkspacePaths bareWorld)) = []"
proof -
  have g: "Getwd exampleWorld = Inr ''/w/pkgA''" by (simp add: exampleWorld_def)
  have d0: "(Dir ^^ 0) ''/w/pkgA'' = ''/w/pkgA''" by simp
  have d1: "(Dir ^^ 1) ''/w/pkgA'' = ''/w''" by code_simp
  have r0: "ReadDir exampleWorld ''/w/pkgA'' = Inr [''a.go'', ''a_test.go'']"
    by (simp add: exampleWorld_def)
  have r1: "ReadDir exampleWorld ''/w'' = Inr [''go.work'', ''pkgA'', ''pkgB'']"
    by (simp add: exampleWorld_def)
  have a: "\<forall>k<1. \<exists>entries. ReadDir exampleWorld ((Dir ^^ k) ''/w/pkgA'') = Inr entries
                              \<and> workFile \<notin> set entries"
    using r0 by (simp add: workFile_def)
  have b: "\<forall>k. 0 < k \<and> k \<le> 1 \<longrightarrow> length ((Dir ^^ k) ''/w/pkgA'') \<noteq> 1"
  proof (intro allI impI)
    fix k :: nat assume "0 < k \<and> k \<le> 1"
    then have "k = 1" by simp
    then show "length ((Dir ^^ k) ''/w/pkgA'') \<noteq> 1" using d1 by simp
  qed
  have c: "\<exists>entries. ReadDir exampleWorld ((Dir ^^ 1) ''/w/pkgA'') = Inr entries
                       \<and> workFile \<in> set entries"
    using r1 d1 by (simp add: workFile_def)
  have "getWorkspacePaths exampleWorld
          = ((Dir ^^ 1) ''/w/pkgA'', readWorkspaceFile exampleWorld ((Dir ^^ 1) ''/w/pkgA'') workFile)"
    using getWorkspacePaths_nearest [OF g, of 1] a b c by blast
  moreover have "readWorkspaceFile exampleWorld ''/w'' workFile = ([''/w/pkgA'', ''/w/pkgB''], [])"
    by code_simp
  ultimately have e: "getWorkspacePaths exampleWorld = (''/w'', [''/w/pkgA'', ''/w/pkgB''], [])"
    using d1 by simp
  have g': "Getwd bareWorld = Inr ''/a/b''" by (simp add: bareWorld_def)
  have "\<forall>k entries. ReadDir bareWorld ((Dir ^^ k) ''/a/b'') = Inr entries \<longrightarrow> workFile \<notin> set entries"
    by (simp add: bareWorld_def workFile_def)
  then have "fst (getWorkspacePaths bareWorld) = [] \<and> fst (snd (getWorkspacePaths bareWorld)) = []"
    using getWorkspacePaths_nearest [OF g', of 0] by blast
  then show ?thesis using g e g' by blast
qed

text \<open>
  C2 as the specification states it fails when the only \<open>go.work\<close> lies in the root directory:
  the loop ends when the parent is the root, before it lists the root.
\<close>

theorem getWorkspacePaths_nearest_counterexample:
  "Getwd rootWorld = Inr ''/a''
   \<and> ReadDir rootWorld ''/a'' = Inr []
   \<and> Dir ''/a'' = ''/''
   \<and> ReadDir rootWorld ''/'' = Inr [''a'', ''go.work'']
   \<and> readWorkspaceFile rootWorld ''/'' workFile = ([''/a''], [])
   \<and> getWorkspacePaths rootWorld = ([], [], [])"
  by code_simp

subsection \<open>Labels\<close>

text \<open>\<open>filepath.Clean\<close> returns no path that ends in a separator, but the root.\<close>

lemma backtrackTo_spec:
  "dotdot \<le> w \<Longrightarrow>
     dotdot \<le> backtrackTo out dotdot w \<and> backtrackTo out dotdot w \<le> w
     \<and> (backtrackTo out dotdot w = dotdot \<or> out ! backtrackTo out dotdot w = CHR ''/'')"
proof (induction out dotdot w rule: backtrackTo.induct)
  case (1 out dotdot w)
  show ?case
  proof (cases "w > dotdot \<and> out ! w \<noteq> CHR ''/''")
    case True
    then have eq: "backtrackTo out dotdot w = backtrackTo out dotdot (w - 1)"
      by (subst backtrackTo.simps) (rule if_P)
    have "dotdot \<le> w - 1" using True by linarith
    then have "dotdot \<le> backtrackTo out dotdot (w - 1) \<and> backtrackTo out dotdot (w - 1) \<le> w - 1
     \<and> (backtrackTo out dotdot (w - 1) = dotdot
         \<or> out ! backtrackTo out dotdot (w - 1) = CHR ''/'')"
      using "1.IH" True by blast
    then show ?thesis unfolding eq by auto
  next
    case False
    then have eq: "backtrackTo out dotdot w = w"
      by (subst backtrackTo.simps) (rule if_not_P)
    show ?thesis using False "1.prems" unfolding eq by auto
  qed
qed

lemma cleanInv_backtrack:
  assumes "cleanInv rooted out dotdot" and "dotdot < length out"
  shows "cleanInv rooted (take (backtrackTo out dotdot (length out - 1)) out) dotdot"
proof -
  let ?w = "backtrackTo out dotdot (length out - 1)"
  have "dotdot \<le> length out - 1" using assms(2) by simp
  then have w: "dotdot \<le> ?w" "?w \<le> length out - 1" "?w = dotdot \<or> out ! ?w = CHR ''/''"
    using backtrackTo_spec [of dotdot "length out - 1" out] by blast+
  have lt: "?w < length out" using w(2) assms(2) by simp
  have len: "length (take ?w out) = ?w" using lt by simp
  have a: "noTrailingSep rooted (take dotdot (take ?w out))"
    using assms(1) w(1) by (simp add: cleanInv_def min_def)
  have b: "noTrailingSep rooted (take ?w out)"
    using w(3) assms(1) lt by (auto simp: cleanInv_def)
  have c: "\<forall>k < length (take ?w out). take ?w out ! k = CHR ''/''
             \<longrightarrow> noTrailingSep rooted (take k (take ?w out))"
  proof (intro allI impI)
    fix k assume k: "k < length (take ?w out)" and s: "take ?w out ! k = CHR ''/''"
    then have "k < ?w" by simp
    then have "out ! k = CHR ''/''" "k < length out" "take k (take ?w out) = take k out"
      using s lt by (simp_all add: min_def)
    then show "noTrailingSep rooted (take k (take ?w out))"
      using assms(1) by (simp add: cleanInv_def)
  qed
  show ?thesis unfolding cleanInv_def using w(1) len a b c by simp
qed

lemma cleanInv_append:
  assumes "cleanInv rooted out dotdot"
    and "elem \<noteq> []" and "\<forall>x \<in> set elem. x \<noteq> CHR ''/''"
    and "sep = [] \<or> sep = ''/''"
    and "dotdot' = dotdot \<or> dotdot' = length (out @ sep @ elem)"
  shows "cleanInv rooted (out @ sep @ elem) dotdot'"
proof -
  let ?out = "out @ sep @ elem"
  have last: "last ?out \<noteq> CHR ''/''" using assms(2,3) by simp
  then have whole: "noTrailingSep rooted ?out" by (simp add: noTrailingSep_def)
  have dd: "dotdot \<le> length out" "noTrailingSep rooted (take dotdot out)"
    using assms(1) by (simp_all add: cleanInv_def)
  have a: "dotdot' \<le> length ?out" using assms(5) dd(1) by auto
  have b: "noTrailingSep rooted (take dotdot' ?out)"
    using assms(5) dd whole by auto
  have c: "\<forall>k < length ?out. ?out ! k = CHR ''/'' \<longrightarrow> noTrailingSep rooted (take k ?out)"
  proof (intro allI impI)
    fix k assume k: "k < length ?out" and s: "?out ! k = CHR ''/''"
    consider (old) "k < length out" | (sep) "length out \<le> k" "k < length out + length sep"
      | (new) "length out + length sep \<le> k"
      by linarith
    then show "noTrailingSep rooted (take k ?out)"
    proof cases
      case old
      then have "out ! k = CHR ''/''" using s by (simp add: nth_append)
      then have "noTrailingSep rooted (take k out)"
        using assms(1) old by (simp add: cleanInv_def)
      then show ?thesis using old by simp
    next
      case sep
      then have "sep = ''/''" "k = length out" using assms(4) by auto
      then have "take k ?out = out" by simp
      then show ?thesis using assms(1) by (simp add: cleanInv_def)
    next
      case new
      then have "(out @ sep @ elem) ! k = (sep @ elem) ! (k - length out)"
        by (simp add: nth_append)
      moreover have "\<not> k - length out < length sep" using new by linarith
      then have "(sep @ elem) ! (k - length out) = elem ! (k - length out - length sep)"
        by (simp add: nth_append)
      ultimately have "?out ! k = elem ! (k - length out - length sep)" by simp
      moreover have "k - length out - length sep < length elem" using new k by simp
      ultimately have "?out ! k \<in> set elem" by (simp only: nth_mem)
      then have "?out ! k \<noteq> CHR ''/''" using assms(3) by blast
      then show ?thesis using s by blast
    qed
  qed
  show ?thesis unfolding cleanInv_def using a b whole c by blast
qed

lemma cleanLoop_noTrailingSep:
  "cleanInv rooted out dotdot \<Longrightarrow> noTrailingSep rooted (cleanLoop rooted out dotdot rest)"
proof (induction rooted out dotdot rest rule: cleanLoop.induct)
  case (1 rooted out dotdot)
  then show ?case by (simp add: cleanInv_def)
next
  case (2 rooted out dotdot c cs)
  let ?dot = "c = CHR ''.'' \<and> (cs = [] \<or> hd cs = CHR ''/'')"
  let ?dotdot = "c = CHR ''.'' \<and> cs \<noteq> [] \<and> hd cs = CHR ''.''
                   \<and> (tl cs = [] \<or> hd (tl cs) = CHR ''/'')"
  note inv = "2.prems"
  consider (sep) "c = CHR ''/''"
    | (dot) "c \<noteq> CHR ''/''" "?dot"
    | (dotdot) "c \<noteq> CHR ''/''" "\<not> ?dot" "?dotdot"
    | (elem) "c \<noteq> CHR ''/''" "\<not> ?dot" "\<not> ?dotdot"
    by blast
  then show ?case
  proof cases
    case sep
    have eq: "cleanLoop rooted out dotdot (c # cs) = cleanLoop rooted out dotdot cs"
      using sep by simp
    show ?thesis unfolding eq using "2.IH"(1) [OF sep inv] .
  next
    case dot
    have eq: "cleanLoop rooted out dotdot (c # cs) = cleanLoop rooted out dotdot cs"
      using dot by simp
    show ?thesis unfolding eq using "2.IH"(2) [OF dot inv] .
  next
    case dotdot
    show ?thesis
    proof (cases "dotdot < length out")
      case True
      let ?out = "take (backtrackTo out dotdot (length out - 1)) out"
      have eq: "cleanLoop rooted out dotdot (c # cs) = cleanLoop rooted ?out dotdot (tl cs)"
        using dotdot True by simp
      have "cleanInv rooted ?out dotdot" using inv True by (rule cleanInv_backtrack)
      then show ?thesis unfolding eq by (rule "2.IH"(3) [OF dotdot True])
    next
      case False
      show ?thesis
      proof (cases rooted)
        case True
        have eq: "cleanLoop rooted out dotdot (c # cs) = cleanLoop rooted out dotdot (tl cs)"
          using dotdot False True by simp
        have nn: "\<not> \<not> rooted" using True by simp
        show ?thesis unfolding eq using "2.IH"(5) [OF dotdot False nn inv] .
      next
        case nr: False
        let ?sep = "if 0 < length out then ''/'' else []"
        let ?out = "(if 0 < length out then out @ ''/'' else out) @ ''..''"
        have out: "?out = out @ ?sep @ ''..''" by simp
        have eq: "cleanLoop rooted out dotdot (c # cs) = cleanLoop rooted ?out (length ?out) (tl cs)"
          using dotdot False nr by simp
        have "cleanInv rooted (out @ ?sep @ ''..'') (length (out @ ?sep @ ''..''))"
          using inv by (rule cleanInv_append) auto
        then have "cleanInv rooted ?out (length ?out)" unfolding out .
        then show ?thesis unfolding eq by (rule "2.IH"(4) [OF dotdot False nr])
      qed
    qed
  next
    case elem
    let ?sep = "if rooted \<and> length out \<noteq> 1 \<or> \<not> rooted \<and> length out \<noteq> 0 then ''/'' else []"
    let ?elem = "takeWhile (\<lambda>x. x \<noteq> CHR ''/'') (c # cs)"
    let ?out = "(if rooted \<and> length out \<noteq> 1 \<or> \<not> rooted \<and> length out \<noteq> 0
                 then out @ ''/'' else out) @ ?elem"
    let ?rest = "dropWhile (\<lambda>x. x \<noteq> CHR ''/'') (c # cs)"
    have out: "?out = out @ ?sep @ ?elem" by simp
    have eq: "cleanLoop rooted out dotdot (c # cs) = cleanLoop rooted ?out dotdot ?rest"
      using elem by (simp only: cleanLoop.simps if_False)
    have ne: "?elem \<noteq> []" using elem(1) by simp
    have nosep: "\<forall>x \<in> set ?elem. x \<noteq> CHR ''/''"
      using set_takeWhileD [of _ "\<lambda>x. x \<noteq> CHR ''/''" "c # cs"] by blast
    have "cleanInv rooted (out @ ?sep @ ?elem) dotdot"
      using inv ne nosep by (rule cleanInv_append) auto
    then have "cleanInv rooted ?out dotdot" unfolding out .
    then show ?thesis unfolding eq by (rule "2.IH"(6) [OF elem])
  qed
qed

lemma Clean_nonempty: "Clean s \<noteq> []"
  by (simp add: Clean_def Let_def)

lemma Clean_noTrailingSep: "Clean s = ''/'' \<or> last (Clean s) \<noteq> CHR ''/''"
proof (cases "s = []")
  case True
  then show ?thesis by (simp add: Clean_def)
next
  case False
  show ?thesis
  proof (cases "hd s = CHR ''/''")
    case True
    let ?out = "cleanLoop True ''/'' 1 (tl s)"
    have clean: "Clean s = (if ?out = [] then ''.'' else ?out)"
      using False True by (simp add: Clean_def)
    have "cleanInv True ''/'' 1" by (simp add: cleanInv_def noTrailingSep_def)
    then have "noTrailingSep True ?out" by (rule cleanLoop_noTrailingSep)
    then show ?thesis unfolding clean by (auto simp: noTrailingSep_def)
  next
    case nr: False
    let ?out = "cleanLoop False [] 0 s"
    have clean: "Clean s = (if ?out = [] then ''.'' else ?out)"
      using False nr by (simp add: Clean_def)
    have "cleanInv False [] 0" by (simp add: cleanInv_def noTrailingSep_def)
    then have "noTrailingSep False ?out" by (rule cleanLoop_noTrailingSep)
    then show ?thesis unfolding clean by (auto simp: noTrailingSep_def)
  qed
qed

text \<open>
  The loop of \<open>filepath.Rel\<close>, when the target continues the base by a separator and a
  rest: it reads the base to its end and leaves the rest.
\<close>

lemma relLoop_end: "relLoop [] targ = ([], [], targ)"
  by (simp add: relLoop.simps [of "[]" targ])

lemma relLoop_root: "relLoop ''/'' (CHR ''/'' # rel) = ([], [], rel)"
proof (cases "rel = []")
  case True
  show ?thesis
    unfolding True by (subst relLoop.simps) (simp add: relLoop_end)
next
  case False
  show ?thesis
    by (subst relLoop.simps) (simp add: relLoop_end)
qed

lemma relLoop_under:
  "base \<noteq> [] \<Longrightarrow> last base \<noteq> CHR ''/'' \<Longrightarrow>
     relLoop base (base @ CHR ''/'' # rel) = ([], [], rel)"
proof (induction "length base" arbitrary: base rule: less_induct)
  case less
  let ?P = "\<lambda>x. x \<noteq> CHR ''/''"
  let ?targ = "base @ CHR ''/'' # rel"
  have tw: "takeWhile ?P ?targ = takeWhile ?P base"
    by (rule takeWhile_tail) simp
  have dw: "dropWhile ?P ?targ = dropWhile ?P base @ CHR ''/'' # rel"
    by (rule dropWhile_append3) simp
  have unfold: "relLoop base ?targ
                  = relLoop (drop 1 (dropWhile ?P base)) (drop 1 (dropWhile ?P ?targ))"
    using less.prems(1) tw by (subst relLoop.simps) simp
  show ?case
  proof (cases "dropWhile ?P base")
    case Nil
    then have "drop 1 (dropWhile ?P ?targ) = rel" using dw by simp
    then show ?thesis using unfold Nil by (simp add: relLoop_end)
  next
    case (Cons d ds)
    then have d: "d = CHR ''/''" using hd_dropWhile [of ?P base] by fastforce
    have base: "base = takeWhile ?P base @ CHR ''/'' # ds"
      using takeWhile_dropWhile_id [of ?P base] Cons d by simp
    have ds: "ds \<noteq> []"
    proof
      assume "ds = []"
      then have "base = takeWhile ?P base @ ''/''" using base by simp
      then have "last base = CHR ''/''" by (metis last_snoc)
      then show False using less.prems(2) by simp
    qed
    have "last base = last ds" using base ds by (metis last_ConsR last_appendR list.distinct(1))
    then have lastds: "last ds \<noteq> CHR ''/''" using less.prems(2) by simp
    have "length ds < length base" using base by (metis length_append length_Cons add_Suc_right
          less_add_Suc2)
    then have "relLoop ds (ds @ CHR ''/'' # rel) = ([], [], rel)"
      using less.hyps ds lastds by blast
    moreover have "drop 1 (dropWhile ?P base) = ds" using Cons by simp
    moreover have "drop 1 (dropWhile ?P ?targ) = ds @ CHR ''/'' # rel" using dw Cons by simp
    ultimately show ?thesis using unfold by simp
  qed
qed

text \<open>
  C8. For a member path under the workspace root, the label is the member path made
  relative to the root. With both paths cleaned as \<open>filepath.Rel\<close> cleans them (which
  is all the normalizing of separators there is on Unix), "under the root" says that the
  member path is the root, a separator and a rest \<open>rel\<close>, or the rest right after the root
  \<open>/\<close>; the label is \<open>rel\<close>, and \<open>filepath.Rel\<close> reports no error. (A root that cleans to
  \<open>.\<close> is left aside: the program's root is the absolute path of a directory.)
\<close>

theorem removeRelativePath_under_root:
  assumes "Clean wPath \<noteq> ''.''"
    and "Clean wPath = ''/'' \<and> rel \<noteq> [] \<and> Clean path = ''/'' @ rel
         \<or> Clean wPath \<noteq> ''/'' \<and> Clean path = Clean wPath @ ''/'' @ rel"
  shows "removeRelativePath wPath path = rel \<and> Rel wPath path = (rel, None)"
proof -
  let ?base = "Clean wPath" and ?targ = "Clean path"
  have ne: "?base \<noteq> []" by (rule Clean_nonempty)
  have differ: "?targ \<noteq> ?base" using assms(2) by auto
  have slashed: "(length ?base > 0 \<and> hd ?base = CHR ''/'') = (length ?targ > 0 \<and> hd ?targ = CHR ''/'')"
    using assms(2) ne by auto
  have loop: "relLoop ?base ?targ = ([], [], rel)"
  proof (cases "?base = ''/''")
    case True
    then have "?targ = CHR ''/'' # rel" using assms(2) by simp
    then show ?thesis using True relLoop_root by simp
  next
    case False
    then have targ: "?targ = ?base @ CHR ''/'' # rel" using assms(2) by simp
    have "last ?base \<noteq> CHR ''/''" using Clean_noTrailingSep [of wPath] False by blast
    then have "relLoop ?base (?base @ CHR ''/'' # rel) = ([], [], rel)"
      using ne by (rule relLoop_under [rotated])
    then show ?thesis using targ by simp
  qed
  have "Rel wPath path = (rel, None)"
    using assms(1) differ slashed loop by (simp add: Rel_def Let_def)
  then show ?thesis by (simp add: removeRelativePath_def)
qed

theorem removeRelativePath_under_root_witness:
  "Clean ''/w'' \<noteq> ''.''
   \<and> Clean ''/w//pkgB/./sub/'' = Clean ''/w'' @ ''/'' @ ''pkgB/sub''
   \<and> removeRelativePath ''/w'' ''/w//pkgB/./sub/'' = ''pkgB/sub''
   \<and> removeRelativePath ''/'' ''/a'' = ''a''"
proof -
  have h1: "Clean ''/w'' \<noteq> ''.''" by code_simp
  have c: "Clean ''/w//pkgB/./sub/'' = Clean ''/w'' @ ''/'' @ ''pkgB/sub''" by code_simp
  have n: "Clean ''/w'' \<noteq> ''/''" by code_simp
  have h2: "Clean ''/w'' = ''/'' \<and> ''pkgB/sub'' \<noteq> [] \<and> Clean ''/w//pkgB/./sub/'' = ''/'' @ ''pkgB/sub''
         \<or> Clean ''/w'' \<noteq> ''/'' \<and> Clean ''/w//pkgB/./sub/'' = Clean ''/w'' @ ''/'' @ ''pkgB/sub''"
    using c n by blast
  have g1: "Clean ''/'' \<noteq> ''.''" by code_simp
  have g2: "Clean ''/'' = ''/'' \<and> ''a'' \<noteq> [] \<and> Clean ''/a'' = ''/'' @ ''a''
         \<or> Clean ''/'' \<noteq> ''/'' \<and> Clean ''/a'' = Clean ''/'' @ ''/'' @ ''a''"
    by code_simp
  show ?thesis
    using h1 c removeRelativePath_under_root [OF h1 h2] removeRelativePath_under_root [OF g1 g2]
    by blast
qed

end
